theory Spec2Isabelle
  imports Main "HOL-Library.Multiset"
begin

section \<open>The description model (src/main.go, the second listing, lines 196-238)\<close>

text \<open>
  Go strings are byte sequences, and so are HOL strings (a \<open>char\<close> is one byte).
  The records below hold the pointees of the slices \<open>[]*State\<close> and \<open>[]*Transition\<close>
  in place. The pointers themselves, which are nil for a JSON \<open>null\<close>, are modelled in
  the section on nil pointers, where \<open>compile_ptr\<close> is \<open>compile\<close> on a description with
  its pointers; a description that passes the indexing loop has no nil pointer.
\<close>

record Transition =
  Event :: string
  To :: string
  Action :: string
  Condition :: string

record State =
  Name :: string
  On :: string
  Transitions :: "Transition list"

text \<open>\<open>DescName\<close> is the field \<open>Name\<close> of the Go struct \<open>Description\<close>.\<close>

record Description =
  States :: "State list"
  DescName :: string
  Package :: string
  Init :: string
  Iface :: string

section \<open>Panics\<close>

text \<open>
  \<open>compile\<close> reports every problem by a panic, which ends the run. The first four
  constructors are the four \<open>panic(fmt.Sprintf(...))\<close> sites of \<open>compile\<close>; the last two
  are run-time panics: the index expression \<open>str[0]\<close> in \<open>camel\<close>, and a field read
  through a nil pointer (\<open>state.Name\<close>, \<open>transition.Event\<close>, \<open>desc.Name\<close>).
\<close>

datatype panic =
    DuplicateState string
  | DuplicateEvent string
  | InitMissing string
  | TargetMissing string string string
  | IndexOutOfRange
  | NilPointerDereference

fun message :: "panic \<Rightarrow> string" where
  \<open>message (DuplicateState n) = ''Duplicate state: '' @ n\<close>
| \<open>message (DuplicateEvent e) =
     ''Can't have two transitions for the same event. Duplicate event: '' @ e @ ''.''\<close>
| \<open>message (InitMissing i) = ''Init state `'' @ i @ ''` does not exist.''\<close>
| \<open>message (TargetMissing s t e) =
     ''Target state in transition from state `'' @ s @ ''` to `'' @ t @ ''` on event `'' @ e
       @ ''` does not exist.''\<close>
| \<open>message IndexOutOfRange = ''runtime error: index out of range [0] with length 0''\<close>
| \<open>message NilPointerDereference =
     ''runtime error: invalid memory address or nil pointer dereference''\<close>

definition bindp :: "panic + 'a \<Rightarrow> ('a \<Rightarrow> panic + 'b) \<Rightarrow> panic + 'b" where
  "bindp r f = (case r of Inl e \<Rightarrow> Inl e | Inr x \<Rightarrow> f x)"

section \<open>Identifier derivation: \<open>camel\<close> (lines 275-279)\<close>

text \<open>
  \<open>first := str[0]\<close> is a byte; \<open>string(first)\<close> is the UTF-8 encoding of the code
  point with that number (one byte below 0x80, two bytes from 0x80 to 0x7FF), and
  \<open>strings.ToUpper\<close> maps that single code point with \<open>unicode.ToUpper\<close>. For the code
  points 0 to 255 the upper-case mapping of Unicode is: a-z to A-Z, U+00B5 to U+039C,
  U+00E0-U+00F6 and U+00F8-U+00FE down by 32, U+00FF to U+0178, everything else fixed.
\<close>

definition unicode_ToUpper :: "nat \<Rightarrow> nat" where
  "unicode_ToUpper r =
     (if 0x61 \<le> r \<and> r \<le> 0x7A then r - 32
      else if r = 0xB5 then 0x39C
      else if 0xE0 \<le> r \<and> r \<le> 0xF6 then r - 32
      else if 0xF8 \<le> r \<and> r \<le> 0xFE then r - 32
      else if r = 0xFF then 0x178
      else r)"

text \<open>The UTF-8 encoding of a code point below 0x800.\<close>

definition rune_string :: "nat \<Rightarrow> string" where
  "rune_string r =
     (if r < 0x80 then [char_of r]
      else [char_of (0xC0 + r div 64), char_of (0x80 + r mod 64)])"

text \<open>\<open>strings.ToUpper(string(first))\<close> for a byte \<open>first\<close>.\<close>

definition ToUpper_byte :: "char \<Rightarrow> string" where
  "ToUpper_byte first = rune_string (unicode_ToUpper (of_char first))"

fun camel :: "string \<Rightarrow> panic + string" where
  "camel [] = Inl IndexOutOfRange"
| "camel (first # rest) = Inr (ToUpper_byte first @ rest)"

section \<open>Validation: the indexing loop of \<open>compile\<close> (lines 308-337)\<close>

text \<open>
  \<open>statesMap\<close> is an association list from state names to states; a key is only ever
  added when it is absent. \<open>eventsMap\<close> and \<open>transitionMap\<close> only ever store \<open>true\<close>,
  so they are the lists of their keys.
\<close>

fun index_transitions ::
  "Transition list \<Rightarrow> string list \<Rightarrow> string list \<Rightarrow> panic + string list" where
  "index_transitions [] transitionMap eventsMap = Inr eventsMap"
| "index_transitions (transition # rest) transitionMap eventsMap =
     (if Event transition \<in> set transitionMap then Inl (DuplicateEvent (Event transition))
      else index_transitions rest (List.insert (Event transition) transitionMap)
             (List.insert (Event transition) eventsMap))"

fun index_states ::
  "State list \<Rightarrow> (string \<times> State) list \<Rightarrow> string list
     \<Rightarrow> panic + ((string \<times> State) list \<times> string list)" where
  "index_states [] statesMap eventsMap = Inr (statesMap, eventsMap)"
| "index_states (state # rest) statesMap eventsMap =
     (case map_of statesMap (Name state) of
        Some it \<Rightarrow> Inl (DuplicateState (Name state))
      | None \<Rightarrow>
          bindp (index_transitions (Transitions state) [] eventsMap)
            (\<lambda>eventsMap'. index_states rest (statesMap @ [(Name state, state)]) eventsMap'))"

section \<open>Iteration over Go maps\<close>

text \<open>
  Go leaves the order of \<open>for ... range\<close> over a map unspecified, and \<open>compile\<close> ranges
  over \<open>statesMap\<close> three times and over \<open>eventsMap\<close> once. Each of the four loops takes
  the order in which it visits the keys as an input; an order is admissible when it
  lists every key of the map exactly once.
\<close>

record orders =
  ord_SetState :: "string list"
  ord_StateConsts :: "string list"
  ord_EventConsts :: "string list"
  ord_Event :: "string list"

definition is_order :: "string list \<Rightarrow> string list \<Rightarrow> bool" where
  "is_order keys ord \<longleftrightarrow> distinct ord \<and> set ord = set keys"

definition orders_ok :: "(string \<times> State) list \<Rightarrow> string list \<Rightarrow> orders \<Rightarrow> bool" where
  "orders_ok statesMap eventsMap ords \<longleftrightarrow>
     is_order (map fst statesMap) (ord_SetState ords) \<and>
     is_order (map fst statesMap) (ord_StateConsts ords) \<and>
     is_order (map fst statesMap) (ord_Event ords) \<and>
     is_order eventsMap (ord_EventConsts ords)"

definition range_states :: "(string \<times> State) list \<Rightarrow> string list \<Rightarrow> State list" where
  "range_states statesMap ord = List.map_filter (map_of statesMap) ord"

definition range_events :: "string list \<Rightarrow> string list \<Rightarrow> string list" where
  "range_events eventsMap ord = filter (\<lambda>k. k \<in> set eventsMap) ord"

section \<open>The emitted text\<close>

text \<open>
  \<open>q\<close> stands for the verb \<open>%q\<close> of \<open>fmt.Sprintf\<close> (Go's \<open>strconv.Quote\<close>); the verb
  \<open>%s\<close> pastes its argument unchanged. Every function below is the concatenation of
  the \<open>writef\<close> calls of the part of \<open>compile\<close> it is named after, in their order.
\<close>

abbreviation TAB :: string where "TAB \<equiv> [CHR 0x09]"

definition ifaceStr :: "Description \<Rightarrow> string" where
  \<open>ifaceStr desc = (if Iface desc \<noteq> [] then ''sm.iface.'' else [])\<close>

definition emit_header :: "Description \<Rightarrow> string \<Rightarrow> string" where
  \<open>emit_header desc pkg = concat [
     ''// Code generated by genstatem; DO NOT EDIT.\<newline>\<newline>'',
     ''package '' @ pkg @ ''\<newline>\<newline>'',
     ''import "fmt"\<newline>'',
     ''import "errors"\<newline>'',
     ''import "sync"\<newline>\<newline>'',
     ''// An Event is an 'Event' that can occur.\<newline>'',
     ''type Event string\<newline>\<newline>'',
     ''// A State is a 'State' a state machine can be in.\<newline>'',
     ''type State string\<newline>\<newline>'',
     ''// '' @ DescName desc @ '' is a state machine.\<newline>'',
     ''type '' @ DescName desc @ '' struct {\<newline>'',
     TAB @ ''state State\<newline>'',
     TAB @ ''mu *sync.RWMutex\<newline>'',
     (if Iface desc \<noteq> [] then TAB @ ''iface '' @ Iface desc @ ''\<newline>'' else []),
     ''}\<newline>\<newline>'',
     ''// State returns the state the state machine is in.\<newline>'',
     ''func (sm *'' @ DescName desc @ '') State() State {\<newline>'',
     TAB @ ''sm.mu.RLock()\<newline>'',
     TAB @ ''defer sm.mu.RUnlock()\<newline>\<newline>'',
     TAB @ ''return sm.state\<newline>}\<newline>\<newline>'']\<close>

definition emit_SetIface :: "Description \<Rightarrow> string" where
  \<open>emit_SetIface desc =
     (if Iface desc \<noteq> [] then concat [
        ''// SetIface sets the internal state of the state machine.\<newline>'',
        ''func (sm *'' @ DescName desc @ '') SetIface(iface '' @ Iface desc @ '') {\<newline>'',
        TAB @ ''sm.mu.Lock()\<newline>'',
        TAB @ ''defer sm.mu.Unlock()\<newline>'',
        TAB @ ''sm.iface = iface\<newline>'',
        ''}\<newline>\<newline>'']
      else [])\<close>

text \<open>
  The three lines written for a call of an action or of an entry action
  (lines 368-370, 426-428 and 452-454).
\<close>

definition emit_call :: "string \<Rightarrow> string \<Rightarrow> string" where
  \<open>emit_call pre f = concat [
     TAB @ TAB @ TAB @ ''if err := '' @ pre @ f @ ''(event, sm.state); err != nil {\<newline>'',
     TAB @ TAB @ TAB @ TAB @ ''return err\<newline>'',
     TAB @ TAB @ TAB @ ''}\<newline>'']\<close>

definition emit_SetState_case :: "(string \<Rightarrow> string) \<Rightarrow> Description \<Rightarrow> State \<Rightarrow> string" where
  \<open>emit_SetState_case q desc state =
     (if On state \<noteq> [] then
        TAB @ TAB @ ''case '' @ q (Name state) @ '':\<newline>'' @ emit_call (ifaceStr desc) (On state)
      else [])\<close>

definition emit_SetState_open :: "Description \<Rightarrow> string" where
  \<open>emit_SetState_open desc = concat [
     ''// SetState sets the state of the state machine. If invokeOn\<newline>'',
     ''// is true then it'll also invoke the 'on' function for that state.\<newline>'',
     ''// The parameter event is passed as the event parameter to the 'on' function.\<newline>'',
     ''func (sm *'' @ DescName desc
        @ '') SetState(state State, event Event, invokeOn bool) error {\<newline>'',
     TAB @ ''sm.mu.Lock()\<newline>'',
     TAB @ ''defer sm.mu.Unlock()\<newline>'',
     TAB @ ''sm.state = state\<newline>'',
     TAB @ ''if invokeOn {\<newline>'',
     TAB @ TAB @ ''switch state {\<newline>'']\<close>

definition emit_SetState_close :: string where
  \<open>emit_SetState_close = concat [
     TAB @ TAB @ ''}\<newline>'',
     TAB @ ''}\<newline>\<newline>'',
     TAB @ ''return nil\<newline>'',
     ''}\<newline>\<newline>'']\<close>

fun emit_state_consts :: "(string \<Rightarrow> string) \<Rightarrow> State list \<Rightarrow> panic + string" where
  \<open>emit_state_consts q [] = Inr []\<close>
| \<open>emit_state_consts q (state # rest) =
     bindp (camel (Name state)) (\<lambda>c.
     bindp (emit_state_consts q rest) (\<lambda>more.
     Inr (''const State'' @ c @ '' = '' @ q (Name state) @ ''\<newline>'' @ more)))\<close>

fun emit_event_consts :: "(string \<Rightarrow> string) \<Rightarrow> string list \<Rightarrow> panic + string" where
  \<open>emit_event_consts q [] = Inr []\<close>
| \<open>emit_event_consts q (k # rest) =
     bindp (camel k) (\<lambda>c.
     bindp (emit_event_consts q rest) (\<lambda>more.
     Inr (''const Event'' @ c @ '' = '' @ q k @ ''\<newline>'' @ more)))\<close>

text \<open>Lines 432-456: the part of a transition's case that depends on its target.\<close>

definition emit_target ::
  "(string \<Rightarrow> string) \<Rightarrow> Description \<Rightarrow> (string \<times> State) list \<Rightarrow> State \<Rightarrow> Transition
     \<Rightarrow> panic + string" where
  \<open>emit_target q desc statesMap state transition =
     (if To transition \<noteq> [] then
        (case map_of statesMap (To transition) of
           None \<Rightarrow> Inl (TargetMissing (Name state) (To transition) (Event transition))
         | Some targetState \<Rightarrow>
             Inr (TAB @ TAB @ TAB @ ''sm.state = '' @ q (To transition) @ ''\<newline>''
                  @ (if On targetState \<noteq> [] then emit_call (ifaceStr desc) (On targetState)
                     else [])))
      else Inr [])\<close>

text \<open>Lines 405-460: the case written for one transition.\<close>

definition emit_transition ::
  "(string \<Rightarrow> string) \<Rightarrow> Description \<Rightarrow> (string \<times> State) list \<Rightarrow> State \<Rightarrow> Transition
     \<Rightarrow> panic + string" where
  \<open>emit_transition q desc statesMap state transition =
     bindp (emit_target q desc statesMap state transition) (\<lambda>target.
     Inr (concat [
       TAB @ TAB @ ''case '' @ q (Event transition) @ '':\<newline>'',
       (if Condition transition \<noteq> [] then concat [
          TAB @ TAB @ TAB @ ''if ok, err := '' @ ifaceStr desc @ Condition transition
            @ ''(event, sm.state); true {\<newline>'',
          TAB @ TAB @ TAB @ ''if err != nil { return err }\<newline>'',
          TAB @ TAB @ TAB @ ''if ok{\<newline>'']
        else []),
       (if Action transition \<noteq> [] then emit_call (ifaceStr desc) (Action transition) else []),
       target,
       (if Condition transition \<noteq> [] then TAB @ TAB @ TAB @ ''}}\<newline>'' else [])]))\<close>

fun emit_transitions ::
  "(string \<Rightarrow> string) \<Rightarrow> Description \<Rightarrow> (string \<times> State) list \<Rightarrow> State \<Rightarrow> Transition list
     \<Rightarrow> panic + string" where
  \<open>emit_transitions q desc statesMap state [] = Inr []\<close>
| \<open>emit_transitions q desc statesMap state (transition # rest) =
     bindp (emit_transition q desc statesMap state transition) (\<lambda>t.
     bindp (emit_transitions q desc statesMap state rest) (\<lambda>more. Inr (t @ more)))\<close>

text \<open>Lines 400-466: the case written for one state.\<close>

definition emit_Event_case ::
  "(string \<Rightarrow> string) \<Rightarrow> Description \<Rightarrow> (string \<times> State) list \<Rightarrow> State \<Rightarrow> panic + string" where
  \<open>emit_Event_case q desc statesMap state =
     bindp (emit_transitions q desc statesMap state (Transitions state)) (\<lambda>ts.
     Inr (concat [
       TAB @ ''case '' @ q (Name state) @ '':\<newline>'',
       TAB @ TAB @ ''switch event {\<newline>'',
       ts,
       TAB @ TAB @ ''default:\<newline>'',
       TAB @ TAB @ TAB @ ''return errors.New(fmt.Sprintf("Event `%s` is not valid during state `%s`, event, sm.state"))\<newline>'',
       TAB @ TAB @ ''}\<newline>'']))\<close>

fun emit_Event_cases ::
  "(string \<Rightarrow> string) \<Rightarrow> Description \<Rightarrow> (string \<times> State) list \<Rightarrow> State list
     \<Rightarrow> panic + string" where
  \<open>emit_Event_cases q desc statesMap [] = Inr []\<close>
| \<open>emit_Event_cases q desc statesMap (state # rest) =
     bindp (emit_Event_case q desc statesMap state) (\<lambda>c.
     bindp (emit_Event_cases q desc statesMap rest) (\<lambda>more. Inr (c @ more)))\<close>

definition emit_Event_open :: "Description \<Rightarrow> string" where
  \<open>emit_Event_open desc = concat [
     ''const NoEvent = ""\<newline>'',
     ''\<newline>\<newline>'',
     ''// Event informs the state machine about an occured 'Event'. The state\<newline>'',
     ''// machine will then transition into the correct target state and invoke the\<newline>'',
     ''// registered callbacks.\<newline>'',
     ''func (sm *'' @ DescName desc @ '') Event(event Event) error {\<newline>'',
     TAB @ ''sm.mu.Lock()\<newline>'',
     TAB @ ''defer sm.mu.Unlock()\<newline>\<newline>'',
     TAB @ ''switch sm.state {\<newline>'']\<close>

definition emit_Event_close :: string where
  \<open>emit_Event_close = concat [
     TAB @ ''}\<newline>\<newline>'',
     TAB @ ''return nil\<newline>'',
     ''}\<newline>\<newline>'']\<close>

definition emit_New :: "(string \<Rightarrow> string) \<Rightarrow> Description \<Rightarrow> string" where
  \<open>emit_New q desc =
     (if Iface desc = [] then concat [
        ''// New'' @ DescName desc @ ''() creates a new state machine.\<newline>'',
        ''func New'' @ DescName desc @ ''() *'' @ DescName desc @ ''{\<newline>'',
        TAB @ ''return &'' @ DescName desc @ ''{state:'' @ q (Init desc)
          @ '', mu: &sync.RWMutex{}}\<newline>'',
        ''}\<newline>\<newline>'']
      else concat [
        ''// New'' @ DescName desc @ '' creates a new state machine.\<newline>'',
        ''func New'' @ DescName desc @ ''(iface '' @ Iface desc @ '') *'' @ DescName desc
          @ ''{\<newline>'',
        TAB @ ''return &'' @ DescName desc @ ''{state:'' @ q (Init desc)
          @ '', mu: &sync.RWMutex{}, iface: iface}\<newline>'',
        ''}\<newline>\<newline>''])\<close>

section \<open>\<open>compile\<close> (lines 281-484)\<close>

text \<open>
  The result is the panic that ended the run, or the text of the buffer at the end.
  The checks come in the order of the source: the indexing loop, the initial state,
  \<open>camel\<close> on the state names and then on the event names, the targets of the
  transitions.
\<close>

definition compile ::
  "(string \<Rightarrow> string) \<Rightarrow> Description \<Rightarrow> string \<Rightarrow> orders \<Rightarrow> panic + string" where
  "compile q desc pkg ords =
     bindp (index_states (States desc) [] []) (\<lambda>(statesMap, eventsMap).
     if map_of statesMap (Init desc) = None then Inl (InitMissing (Init desc))
     else
       bindp (emit_state_consts q (range_states statesMap (ord_StateConsts ords))) (\<lambda>sconsts.
       bindp (emit_event_consts q (range_events eventsMap (ord_EventConsts ords))) (\<lambda>econsts.
       bindp (emit_Event_cases q desc statesMap (range_states statesMap (ord_Event ords)))
         (\<lambda>cases.
       Inr (concat [
         emit_header desc pkg,
         emit_SetIface desc,
         emit_SetState_open desc,
         concat (map (emit_SetState_case q desc) (range_states statesMap (ord_SetState ords))),
         emit_SetState_close,
         sconsts,
         econsts,
         emit_Event_open desc,
         cases,
         emit_Event_close,
         emit_New q desc])))))"

section \<open>Nil pointers\<close>

text \<open>
  \<open>compile\<close> takes a \<open>*Description\<close> whose field \<open>States\<close> is a \<open>[]*State\<close>, and every
  state has a \<open>[]*Transition\<close>; \<open>json.Unmarshal\<close> leaves a nil pointer for a \<open>null\<close>.
  \<open>PDescription\<close> and \<open>PState\<close> are the two structs with their pointers: \<open>None\<close> is
  nil. The fields are those of \<open>Description\<close> and \<open>State\<close>, with the prefix \<open>P\<close>.
\<close>

record PState =
  PName :: string
  POn :: string
  PTransitions :: "Transition option list"

record PDescription =
  PStates :: "PState option list"
  PDescName :: string
  PPackage :: string
  PInit :: string
  PIface :: string

text \<open>
  The indexing loop (lines 311-333) on the pointers: \<open>state.Name\<close> (line 312) and
  \<open>transition.Event\<close> (line 323) are the first reads through each pointer, and panic
  when it is nil.
\<close>

fun index_transitions_ptr ::
  "Transition option list \<Rightarrow> string list \<Rightarrow> string list \<Rightarrow> panic + string list" where
  "index_transitions_ptr [] transitionMap eventsMap = Inr eventsMap"
| "index_transitions_ptr (None # rest) transitionMap eventsMap = Inl NilPointerDereference"
| "index_transitions_ptr (Some transition # rest) transitionMap eventsMap =
     (if Event transition \<in> set transitionMap then Inl (DuplicateEvent (Event transition))
      else index_transitions_ptr rest (List.insert (Event transition) transitionMap)
             (List.insert (Event transition) eventsMap))"

fun index_states_ptr ::
  "PState option list \<Rightarrow> (string \<times> PState) list \<Rightarrow> string list
     \<Rightarrow> panic + ((string \<times> PState) list \<times> string list)" where
  "index_states_ptr [] statesMap eventsMap = Inr (statesMap, eventsMap)"
| "index_states_ptr (None # rest) statesMap eventsMap = Inl NilPointerDereference"
| "index_states_ptr (Some state # rest) statesMap eventsMap =
     (case map_of statesMap (PName state) of
        Some it \<Rightarrow> Inl (DuplicateState (PName state))
      | None \<Rightarrow>
          bindp (index_transitions_ptr (PTransitions state) [] eventsMap)
            (\<lambda>eventsMap'.
               index_states_ptr rest (statesMap @ [(PName state, state)]) eventsMap'))"

text \<open>
  The pointees of a slice of pointers (its non-nil entries), of a state and of a
  description; and the other way round, a description with a pointer to each entry.
\<close>

definition present :: "'a option list \<Rightarrow> 'a list" where
  "present xs = List.map_filter (\<lambda>x. x) xs"

definition pointee_State :: "PState \<Rightarrow> State" where
  "pointee_State s = \<lparr>Name = PName s, On = POn s, Transitions = present (PTransitions s)\<rparr>"

definition pointees :: "PDescription \<Rightarrow> Description" where
  "pointees d =
     \<lparr>States = map pointee_State (present (PStates d)), DescName = PDescName d,
      Package = PPackage d, Init = PInit d, Iface = PIface d\<rparr>"

definition ptr_State :: "State \<Rightarrow> PState" where
  "ptr_State s = \<lparr>PName = Name s, POn = On s, PTransitions = map Some (Transitions s)\<rparr>"

definition ptrs :: "Description \<Rightarrow> PDescription" where
  "ptrs desc =
     \<lparr>PStates = map (\<lambda>s. Some (ptr_State s)) (States desc), PDescName = DescName desc,
      PPackage = Package desc, PInit = Init desc, PIface = Iface desc\<rparr>"

text \<open>
  \<open>compile\<close> on the pointers. A nil \<open>desc\<close> panics at the first \<open>desc.Name\<close> (line 291).
  Otherwise the indexing loop is the first code that reads the states and the
  transitions, and it reads every one of them; when it returns, no pointer is nil and
  the run is the run of \<open>compile\<close> on the pointees.
\<close>

definition compile_ptr ::
  "(string \<Rightarrow> string) \<Rightarrow> PDescription option \<Rightarrow> string \<Rightarrow> orders \<Rightarrow> panic + string" where
  "compile_ptr q desc pkg ords =
     (case desc of
        None \<Rightarrow> Inl NilPointerDereference
      | Some d \<Rightarrow>
          (case index_states_ptr (PStates d) [] [] of
             Inl e \<Rightarrow> Inl e
           | Inr maps \<Rightarrow> compile q (pointees d) pkg ords))"

text \<open>
  A slice of transitions, and a slice of states, in which the indexing loop finds
  nothing wrong: no nil pointer, no event twice in a state, no state name twice.
\<close>

definition clean_transitions :: "Transition option list \<Rightarrow> bool" where
  "clean_transitions ts \<longleftrightarrow> None \<notin> set ts \<and> distinct (map Event (present ts))"

definition clean_states :: "PState option list \<Rightarrow> bool" where
  "clean_states sts \<longleftrightarrow>
     None \<notin> set sts \<and> distinct (map PName (present sts)) \<and>
     list_all (\<lambda>s. clean_transitions (PTransitions s)) (present sts)"

section \<open>The generated program as a syntax tree\<close>

text \<open>
  The claims about the generated \<open>Event\<close> and \<open>SetState\<close> routines are about what the
  emitted Go text does when it runs. The emitted statements have three shapes:
  \<^item> \<open>CallReturnErr pre f\<close> is \<open>if err := pre f(event, sm.state); err != nil { return err }\<close>;
  \<^item> \<open>SetStateTo s\<close> is \<open>sm.state = "s"\<close>;
  \<^item> \<open>IfCond pre c body\<close> is
    \<open>if ok, err := pre c(event, sm.state); true { if err != nil { return err }; if ok { body }}\<close>.

  The functions \<open>gen_...\<close> build the tree with the control flow of the \<open>emit_...\<close>
  function of the same name, and \<open>render_...\<close> writes a tree as text; the lemma
  \<open>compile_generate\<close> below shows that the text \<open>compile\<close> writes is the rendering of
  the tree. \<open>compile\<close> pastes the callback names into the text unchanged, so the text
  has this reading when the names of the description are Go identifiers.
\<close>

datatype stmt =
    CallReturnErr string string
  | SetStateTo string
  | IfCond string string "stmt list"

record program =
  SetState_cases :: "(string \<times> stmt list) list"
  State_consts :: "(string \<times> string) list"
  Event_consts :: "(string \<times> string) list"
  Event_cases :: "(string \<times> (string \<times> stmt list) list) list"

definition gen_SetState_cases :: "Description \<Rightarrow> State list \<Rightarrow> (string \<times> stmt list) list" where
  "gen_SetState_cases desc states =
     map (\<lambda>state. (Name state, [CallReturnErr (ifaceStr desc) (On state)]))
       (filter (\<lambda>state. On state \<noteq> []) states)"

fun gen_consts :: "string list \<Rightarrow> panic + (string \<times> string) list" where
  "gen_consts [] = Inr []"
| "gen_consts (k # rest) =
     bindp (camel k) (\<lambda>c. bindp (gen_consts rest) (\<lambda>more. Inr ((c, k) # more)))"

definition gen_target ::
  "Description \<Rightarrow> (string \<times> State) list \<Rightarrow> State \<Rightarrow> Transition \<Rightarrow> panic + stmt list" where
  "gen_target desc statesMap state transition =
     (if To transition \<noteq> [] then
        (case map_of statesMap (To transition) of
           None \<Rightarrow> Inl (TargetMissing (Name state) (To transition) (Event transition))
         | Some targetState \<Rightarrow>
             Inr (SetStateTo (To transition)
                  # (if On targetState \<noteq> [] then [CallReturnErr (ifaceStr desc) (On targetState)]
                     else [])))
      else Inr [])"

definition gen_transition ::
  "Description \<Rightarrow> (string \<times> State) list \<Rightarrow> State \<Rightarrow> Transition
     \<Rightarrow> panic + (string \<times> stmt list)" where
  "gen_transition desc statesMap state transition =
     bindp (gen_target desc statesMap state transition) (\<lambda>target.
     let inner =
       (if Action transition \<noteq> [] then [CallReturnErr (ifaceStr desc) (Action transition)]
        else []) @ target
     in Inr (Event transition,
          (if Condition transition \<noteq> [] then [IfCond (ifaceStr desc) (Condition transition) inner]
           else inner)))"

fun gen_transitions ::
  "Description \<Rightarrow> (string \<times> State) list \<Rightarrow> State \<Rightarrow> Transition list
     \<Rightarrow> panic + (string \<times> stmt list) list" where
  "gen_transitions desc statesMap state [] = Inr []"
| "gen_transitions desc statesMap state (transition # rest) =
     bindp (gen_transition desc statesMap state transition) (\<lambda>t.
     bindp (gen_transitions desc statesMap state rest) (\<lambda>more. Inr (t # more)))"

definition gen_Event_case ::
  "Description \<Rightarrow> (string \<times> State) list \<Rightarrow> State
     \<Rightarrow> panic + (string \<times> (string \<times> stmt list) list)" where
  "gen_Event_case desc statesMap state =
     bindp (gen_transitions desc statesMap state (Transitions state)) (\<lambda>ts.
     Inr (Name state, ts))"

fun gen_Event_cases ::
  "Description \<Rightarrow> (string \<times> State) list \<Rightarrow> State list
     \<Rightarrow> panic + (string \<times> (string \<times> stmt list) list) list" where
  "gen_Event_cases desc statesMap [] = Inr []"
| "gen_Event_cases desc statesMap (state # rest) =
     bindp (gen_Event_case desc statesMap state) (\<lambda>c.
     bindp (gen_Event_cases desc statesMap rest) (\<lambda>more. Inr (c # more)))"

definition generate :: "Description \<Rightarrow> orders \<Rightarrow> panic + program" where
  "generate desc ords =
     bindp (index_states (States desc) [] []) (\<lambda>(statesMap, eventsMap).
     if map_of statesMap (Init desc) = None then Inl (InitMissing (Init desc))
     else
       bindp (gen_consts (map Name (range_states statesMap (ord_StateConsts ords)))) (\<lambda>sconsts.
       bindp (gen_consts (range_events eventsMap (ord_EventConsts ords))) (\<lambda>econsts.
       bindp (gen_Event_cases desc statesMap (range_states statesMap (ord_Event ords)))
         (\<lambda>cases.
       Inr \<lparr>SetState_cases =
              gen_SetState_cases desc (range_states statesMap (ord_SetState ords)),
            State_consts = sconsts,
            Event_consts = econsts,
            Event_cases = cases\<rparr>))))"

text \<open>
  The orders handed to \<open>compile\<close> are admissible for a description when they list the
  keys of the maps its indexing loop builds.
\<close>

definition admissible :: "Description \<Rightarrow> orders \<Rightarrow> bool" where
  "admissible desc ords =
     (case index_states (States desc) [] [] of
        Inl e \<Rightarrow> True
      | Inr (statesMap, eventsMap) \<Rightarrow> orders_ok statesMap eventsMap ords)"

subsection \<open>Rendering\<close>

fun render_stmt :: "(string \<Rightarrow> string) \<Rightarrow> stmt \<Rightarrow> string"
  and render_stmts :: "(string \<Rightarrow> string) \<Rightarrow> stmt list \<Rightarrow> string" where
  \<open>render_stmt q (CallReturnErr pre f) = emit_call pre f\<close>
| \<open>render_stmt q (SetStateTo s) = TAB @ TAB @ TAB @ ''sm.state = '' @ q s @ ''\<newline>''\<close>
| \<open>render_stmt q (IfCond pre c body) =
     TAB @ TAB @ TAB @ ''if ok, err := '' @ pre @ c @ ''(event, sm.state); true {\<newline>''
     @ TAB @ TAB @ TAB @ ''if err != nil { return err }\<newline>''
     @ TAB @ TAB @ TAB @ ''if ok{\<newline>''
     @ render_stmts q body
     @ TAB @ TAB @ TAB @ ''}}\<newline>''\<close>
| \<open>render_stmts q [] = []\<close>
| \<open>render_stmts q (s # rest) = render_stmt q s @ render_stmts q rest\<close>

definition render_case :: "(string \<Rightarrow> string) \<Rightarrow> string \<times> stmt list \<Rightarrow> string" where
  \<open>render_case q c = TAB @ TAB @ ''case '' @ q (fst c) @ '':\<newline>'' @ render_stmts q (snd c)\<close>

definition render_Event_case ::
  "(string \<Rightarrow> string) \<Rightarrow> string \<times> (string \<times> stmt list) list \<Rightarrow> string" where
  \<open>render_Event_case q c = concat [
     TAB @ ''case '' @ q (fst c) @ '':\<newline>'',
     TAB @ TAB @ ''switch event {\<newline>'',
     concat (map (render_case q) (snd c)),
     TAB @ TAB @ ''default:\<newline>'',
     TAB @ TAB @ TAB @ ''return errors.New(fmt.Sprintf("Event `%s` is not valid during state `%s`, event, sm.state"))\<newline>'',
     TAB @ TAB @ ''}\<newline>'']\<close>

definition render_const :: "(string \<Rightarrow> string) \<Rightarrow> string \<Rightarrow> string \<times> string \<Rightarrow> string" where
  \<open>render_const q kind c = ''const '' @ kind @ fst c @ '' = '' @ q (snd c) @ ''\<newline>''\<close>

definition render_program ::
  "(string \<Rightarrow> string) \<Rightarrow> Description \<Rightarrow> string \<Rightarrow> program \<Rightarrow> string" where
  \<open>render_program q desc pkg prog = concat [
     emit_header desc pkg,
     emit_SetIface desc,
     emit_SetState_open desc,
     concat (map (render_case q) (SetState_cases prog)),
     emit_SetState_close,
     concat (map (render_const q ''State'') (State_consts prog)),
     concat (map (render_const q ''Event'') (Event_consts prog)),
     emit_Event_open desc,
     concat (map (render_Event_case q) (Event_cases prog)),
     emit_Event_close,
     emit_New q desc]\<close>

section \<open>Running the generated routines\<close>

text \<open>
  The generated machine holds its current state; the callbacks are functions of the
  user's package (or methods of the collaborator \<open>sm.iface\<close>), named in the
  description. A callback gets the event and the state by value, may read and change
  its own world \<open>'w\<close>, and returns an error (\<open>None\<close> is \<open>nil\<close>); a condition returns
  a boolean as well. The model records every call with its arguments in \<open>calls\<close>.
  The locking of \<open>sm.mu\<close> is not modelled.
\<close>

record ('w, 'e) callbacks =
  action_fn :: "string \<Rightarrow> string \<Rightarrow> string \<Rightarrow> 'w \<Rightarrow> 'e option \<times> 'w"
  condition_fn :: "string \<Rightarrow> string \<Rightarrow> string \<Rightarrow> 'w \<Rightarrow> (bool \<times> 'e option) \<times> 'w"

record 'w machine =
  state :: string
  world :: 'w
  calls :: "(string \<times> string \<times> string) list"

text \<open>
  The error a generated routine returns: the \<open>errors.New(...)\<close> of the \<open>default\<close>
  branch, whose text is the same at every site, or the error of a callback.
\<close>

datatype 'e error = EventNotValid | CallbackError 'e

definition call_action ::
  "('w, 'e) callbacks \<Rightarrow> string \<Rightarrow> string \<Rightarrow> 'w machine \<Rightarrow> 'e option \<times> 'w machine" where
  "call_action cb f event m =
     (case action_fn cb f event (state m) (world m) of
        (err, w) \<Rightarrow> (err, m\<lparr>world := w, calls := calls m @ [(f, event, state m)]\<rparr>))"

definition call_condition ::
  "('w, 'e) callbacks \<Rightarrow> string \<Rightarrow> string \<Rightarrow> 'w machine
     \<Rightarrow> (bool \<times> 'e option) \<times> 'w machine" where
  "call_condition cb f event m =
     (case condition_fn cb f event (state m) (world m) of
        (r, w) \<Rightarrow> (r, m\<lparr>world := w, calls := calls m @ [(f, event, state m)]\<rparr>))"

text \<open>
  Running statements: the first component of the result is \<open>Some err\<close> when a
  \<open>return err\<close> was reached and \<open>None\<close> when control fell through to the end.
\<close>

fun exec_stmt ::
    "('w, 'e) callbacks \<Rightarrow> string \<Rightarrow> stmt \<Rightarrow> 'w machine \<Rightarrow> 'e option \<times> 'w machine"
  and exec_stmts ::
    "('w, 'e) callbacks \<Rightarrow> string \<Rightarrow> stmt list \<Rightarrow> 'w machine \<Rightarrow> 'e option \<times> 'w machine"
  where
  "exec_stmt cb event (CallReturnErr pre f) m = call_action cb f event m"
| "exec_stmt cb event (SetStateTo s) m = (None, m\<lparr>state := s\<rparr>)"
| "exec_stmt cb event (IfCond pre c body) m =
     (case call_condition cb c event m of
        ((ok, Some err), m') \<Rightarrow> (Some err, m')
      | ((ok, None), m') \<Rightarrow> if ok then exec_stmts cb event body m' else (None, m'))"
| "exec_stmts cb event [] m = (None, m)"
| "exec_stmts cb event (s # rest) m =
     (case exec_stmt cb event s m of
        (Some err, m') \<Rightarrow> (Some err, m')
      | (None, m') \<Rightarrow> exec_stmts cb event rest m')"

text \<open>
  A \<open>switch\<close> runs the first case whose constant equals the value switched on (the
  cases of a description that compiles are distinct).
\<close>

definition switch :: "string \<Rightarrow> (string \<times> 'a) list \<Rightarrow> 'a option" where
  "switch v cases = map_option snd (find (\<lambda>c. fst c = v) cases)"

text \<open>
  \<open>func (sm *M) Event(event Event) error\<close>: the outer \<open>switch sm.state\<close> has no
  \<open>default\<close>, so with no case for the current state control reaches \<open>return nil\<close>; the
  inner \<open>switch event\<close> has the \<open>default\<close> that returns the error.
\<close>

definition run_Event ::
  "('w, 'e) callbacks \<Rightarrow> program \<Rightarrow> string \<Rightarrow> 'w machine \<Rightarrow> 'e error option \<times> 'w machine" where
  "run_Event cb prog event m =
     (case switch (state m) (Event_cases prog) of
        None \<Rightarrow> (None, m)
      | Some event_cases \<Rightarrow>
          (case switch event event_cases of
             None \<Rightarrow> (Some EventNotValid, m)
           | Some body \<Rightarrow>
               (case exec_stmts cb event body m of
                  (err, m') \<Rightarrow> (map_option CallbackError err, m'))))"

text \<open>\<open>func (sm *M) SetState(state State, event Event, invokeOn bool) error\<close>.\<close>

definition run_SetState ::
  "('w, 'e) callbacks \<Rightarrow> program \<Rightarrow> string \<Rightarrow> string \<Rightarrow> bool \<Rightarrow> 'w machine
     \<Rightarrow> 'e error option \<times> 'w machine" where
  "run_SetState cb prog s event invokeOn m =
     (let m1 = m\<lparr>state := s\<rparr> in
      if invokeOn then
        (case switch s (SetState_cases prog) of
           None \<Rightarrow> (None, m1)
         | Some body \<Rightarrow>
             (case exec_stmts cb event body m1 of
                (err, m') \<Rightarrow> (map_option CallbackError err, m')))
      else (None, m1))"

text \<open>The constructor \<open>New\<close>: the machine starts in the state \<open>Init\<close>.\<close>

definition run_New :: "Description \<Rightarrow> 'w \<Rightarrow> 'w machine" where
  "run_New desc w = \<lparr>state = Init desc, world = w, calls = []\<rparr>"

section \<open>The error classes of validation and the transitions of a state\<close>

text \<open>
  The four error classes of validation, as predicates on the description: two states
  with the same name, two transitions of one state for the same event, an initial
  state that names no state, a non-empty transition target that names no state.
\<close>

definition has_duplicate_state :: "Description \<Rightarrow> bool" where
  "has_duplicate_state desc \<longleftrightarrow> \<not> distinct (map Name (States desc))"

definition has_duplicate_event :: "Description \<Rightarrow> bool" where
  "has_duplicate_event desc \<longleftrightarrow>
     list_ex (\<lambda>s. \<not> distinct (map Event (Transitions s))) (States desc)"

definition init_missing :: "Description \<Rightarrow> bool" where
  "init_missing desc \<longleftrightarrow> Init desc \<notin> Name ` set (States desc)"

definition target_missing :: "Description \<Rightarrow> bool" where
  "target_missing desc \<longleftrightarrow>
     list_ex (\<lambda>s. list_ex (\<lambda>t. To t \<noteq> [] \<and> To t \<notin> Name ` set (States desc)) (Transitions s))
       (States desc)"

text \<open>
  \<open>has_empty_name desc\<close>: a state or an event of the description has the empty name, on
  which \<open>camel\<close> panics.
\<close>

definition has_empty_name :: "Description \<Rightarrow> bool" where
  "has_empty_name desc \<longleftrightarrow>
     [] \<in> set (map Name (States desc)) \<or>
     list_ex (\<lambda>s. [] \<in> set (map Event (Transitions s))) (States desc)"

text \<open>
  \<open>has_transition desc cur event\<close>: the description registers a transition for \<open>event\<close>
  in a state named \<open>cur\<close>.
\<close>

definition has_transition :: "Description \<Rightarrow> string \<Rightarrow> string \<Rightarrow> bool" where
  "has_transition desc cur event \<longleftrightarrow>
     list_ex (\<lambda>s. Name s = cur \<and> list_ex (\<lambda>t. Event t = event) (Transitions s)) (States desc)"

section \<open>The verb \<open>%q\<close> on ASCII strings\<close>

text \<open>
  \<open>Quote_ascii\<close> is Go's \<open>strconv.Quote\<close> on a string of ASCII bytes: the string in
  double quotes, with \<open>"\<close> and the backslash escaped, the control characters written as
  \<open>\a \b \f \n \r \t \v\<close> or \<open>\xhh\<close>, and every other byte copied. (A byte from 0x80 on
  is written as \<open>\xhh\<close> too, which is what Go writes for a byte outside a well-formed
  UTF-8 sequence.) The general statements below hold for every \<open>q\<close>; \<open>Quote_ascii\<close>
  stands for \<open>q\<close> in the statements about the concrete descriptions of the next
  section, whose names are printable ASCII.
\<close>

definition hex_digit :: "nat \<Rightarrow> char" where
  "hex_digit n = (if n < 10 then char_of (48 + n) else char_of (87 + n))"

definition Quote_byte :: "char \<Rightarrow> string" where
  \<open>Quote_byte c =
     (let n = (of_char c :: nat) in
      if n = 0x22 then [CHR 0x5C, CHR 0x22]
      else if n = 0x5C then [CHR 0x5C, CHR 0x5C]
      else if 0x20 \<le> n \<and> n < 0x7F then [c]
      else if n = 7 then [CHR 0x5C, CHR ''a'']
      else if n = 8 then [CHR 0x5C, CHR ''b'']
      else if n = 12 then [CHR 0x5C, CHR ''f'']
      else if n = 10 then [CHR 0x5C, CHR ''n'']
      else if n = 13 then [CHR 0x5C, CHR ''r'']
      else if n = 9 then [CHR 0x5C, CHR ''t'']
      else if n = 11 then [CHR 0x5C, CHR ''v'']
      else [CHR 0x5C, CHR ''x'', hex_digit (n div 16), hex_digit (n mod 16)])\<close>

definition Quote_ascii :: "string \<Rightarrow> string" where
  "Quote_ascii s = CHR 0x22 # concat (map Quote_byte s) @ [CHR 0x22]"

section \<open>Concrete descriptions\<close>

text \<open>
  The machine of the end-to-end scenario: \<open>idle\<close> goes to \<open>running\<close> on \<open>start\<close>, and
  \<open>running\<close> has the entry action \<open>onRunning\<close>; the transition also has the condition
  \<open>ready\<close> and the action \<open>prepare\<close>. \<open>example_program\<close> is what \<open>generate\<close> builds for
  it when the maps are ranged over in \<open>example_orders\<close>.
\<close>

definition example_idle :: State where
  "example_idle =
     \<lparr>Name = ''idle'', On = [],
      Transitions = [\<lparr>Event = ''start'', To = ''running'', Action = ''prepare'',
                      Condition = ''ready''\<rparr>]\<rparr>"

definition example_running :: State where
  "example_running = \<lparr>Name = ''running'', On = ''onRunning'', Transitions = []\<rparr>"

definition example_start :: Transition where
  "example_start =
     \<lparr>Event = ''start'', To = ''running'', Action = ''prepare'', Condition = ''ready''\<rparr>"

definition example_desc :: Description where
  "example_desc =
     \<lparr>States =
        [\<lparr>Name = ''idle'', On = [],
          Transitions = [\<lparr>Event = ''start'', To = ''running'', Action = ''prepare'',
                          Condition = ''ready''\<rparr>]\<rparr>,
         \<lparr>Name = ''running'', On = ''onRunning'', Transitions = []\<rparr>],
      DescName = ''Machine'', Package = ''main'', Init = ''idle'', Iface = []\<rparr>"

definition example_orders :: orders where
  "example_orders =
     \<lparr>ord_SetState = [''running'', ''idle''], ord_StateConsts = [''idle'', ''running''],
      ord_EventConsts = [''start''], ord_Event = [''running'', ''idle'']\<rparr>"

definition example_program :: program where
  "example_program =
     \<lparr>SetState_cases = [(''running'', [CallReturnErr [] ''onRunning''])],
      State_consts = [(''Idle'', ''idle''), (''Running'', ''running'')],
      Event_consts = [(''Start'', ''start'')],
      Event_cases =
        [(''running'', []),
         (''idle'',
          [(''start'',
            [IfCond [] ''ready''
               [CallReturnErr [] ''prepare'', SetStateTo ''running'',
                CallReturnErr [] ''onRunning'']])])]\<rparr>"

text \<open>
  Callbacks for the example: the condition returns \<open>ready\<close>, the action \<open>prepare\<close> and the
  entry action \<open>onRunning\<close> return the given errors; the world counts the calls.
\<close>

definition example_callbacks ::
  "bool \<times> string option \<Rightarrow> string option \<Rightarrow> string option \<Rightarrow> (nat, string) callbacks" where
  "example_callbacks ready prepare onRunning =
     \<lparr>action_fn = (\<lambda>f event s w. (if f = ''prepare'' then prepare
                                   else if f = ''onRunning'' then onRunning else None, Suc w)),
      condition_fn = (\<lambda>f event s w. (ready, Suc w))\<rparr>"

text \<open>
  The same description with the state constants visited in the other order.
\<close>

definition swapped_orders :: orders where
  "swapped_orders = example_orders\<lparr>ord_StateConsts := [''running'', ''idle'']\<rparr>"

definition swapped_program :: program where
  "swapped_program =
     example_program\<lparr>State_consts := [(''Running'', ''running''), (''Idle'', ''idle'')]\<rparr>"

text \<open>
  A description with two error classes at once (the state \<open>a\<close> twice, and an initial
  state that does not exist), one whose only transition goes to a state that does not
  exist, and one with the two state names \<open>idle\<close> and \<open>Idle\<close>.
\<close>

definition twice_desc :: Description where
  "twice_desc =
     \<lparr>States = [\<lparr>Name = ''a'', On = [], Transitions = []\<rparr>,
                \<lparr>Name = ''a'', On = [], Transitions = []\<rparr>],
      DescName = ''M'', Package = ''main'', Init = ''nowhere'', Iface = []\<rparr>"

definition no_orders :: orders where
  "no_orders = \<lparr>ord_SetState = [], ord_StateConsts = [], ord_EventConsts = [], ord_Event = []\<rparr>"

definition dangling_desc :: Description where
  "dangling_desc =
     \<lparr>States = [\<lparr>Name = ''a'', On = [],
                 Transitions = [\<lparr>Event = ''go'', To = ''nowhere'', Action = [],
                                 Condition = []\<rparr>]\<rparr>],
      DescName = ''M'', Package = ''main'', Init = ''a'', Iface = []\<rparr>"

definition dangling_orders :: orders where
  "dangling_orders =
     \<lparr>ord_SetState = [''a''], ord_StateConsts = [''a''], ord_EventConsts = [''go''],
      ord_Event = [''a'']\<rparr>"

definition case_desc :: Description where
  "case_desc =
     \<lparr>States = [\<lparr>Name = ''idle'', On = [], Transitions = []\<rparr>,
                \<lparr>Name = ''Idle'', On = [], Transitions = []\<rparr>],
      DescName = ''M'', Package = ''main'', Init = ''idle'', Iface = []\<rparr>"

definition case_orders :: orders where
  "case_orders =
     \<lparr>ord_SetState = [''idle'', ''Idle''], ord_StateConsts = [''idle'', ''Idle''],
      ord_EventConsts = [], ord_Event = [''idle'', ''Idle'']\<rparr>"

definition case_program :: program where
  "case_program =
     \<lparr>SetState_cases = [],
      State_consts = [(''Idle'', ''idle''), (''Idle'', ''Idle'')],
      Event_consts = [],
      Event_cases = [(''idle'', []), (''Idle'', [])]\<rparr>"

text \<open>
A description whose only state has the empty name, which is also its initial state.
\<close>

definition unnamed_desc :: Description where
  "unnamed_desc =
     \<lparr>States = [\<lparr>Name = [], On = [], Transitions = []\<rparr>],
      DescName = ''M'', Package = ''main'', Init = [], Iface = []\<rparr>"

definition unnamed_orders :: orders where
  "unnamed_orders =
     \<lparr>ord_SetState = [[]], ord_StateConsts = [[]], ord_EventConsts = [], ord_Event = [[]]\<rparr>"

text \<open>
  A description with a \<open>null\<close> between two states of the same name, and a missing
  initial state.
\<close>

definition null_desc :: PDescription where
  "null_desc =
     \<lparr>PStates = [Some \<lparr>PName = ''a'', POn = [], PTransitions = []\<rparr>, None,
                 Some \<lparr>PName = ''a'', POn = [], PTransitions = []\<rparr>],
      PDescName = ''M'', PPackage = ''main'', PInit = ''nowhere'', PIface = []\<rparr>"

section \<open>The text of \<open>compile\<close> is the rendering of the generated program\<close>

lemma bindp_Inr [simp]: "bindp (Inr x) f = f x"
  by (simp add: bindp_def)

lemma bindp_Inl [simp]: "bindp (Inl e) f = Inl e"
  by (simp add: bindp_def)

lemma bindp_eq_Inr: "bindp r f = Inr y \<longleftrightarrow> (\<exists>x. r = Inr x \<and> f x = Inr y)"
  by (cases r) simp_all

lemma emit_state_consts_gen:
  "emit_state_consts q states =
     bindp (gen_consts (map Name states)) (\<lambda>cs. Inr (concat (map (render_const q ''State'') cs)))"
proof (induction states)
  case Nil
  show ?case by simp
next
  case (Cons s rest)
  show ?case
  proof (cases "camel (Name s)")
    case (Inl e)
    then show ?thesis by simp
  next
    case c: (Inr c)
    show ?thesis
    proof (cases "gen_consts (map Name rest)")
      case (Inl e)
      with c Cons show ?thesis by simp
    next
      case (Inr more)
      with c Cons show ?thesis by (simp add: render_const_def)
    qed
  qed
qed

lemma emit_event_consts_gen:
  "emit_event_consts q ks =
     bindp (gen_consts ks) (\<lambda>cs. Inr (concat (map (render_const q ''Event'') cs)))"
proof (induction ks)
  case Nil
  show ?case by simp
next
  case (Cons k rest)
  show ?case
  proof (cases "camel k")
    case (Inl e)
    then show ?thesis by simp
  next
    case c: (Inr c)
    show ?thesis
    proof (cases "gen_consts rest")
      case (Inl e)
      with c Cons show ?thesis by simp
    next
      case (Inr more)
      with c Cons show ?thesis by (simp add: render_const_def)
    qed
  qed
qed

lemma emit_target_gen:
  "emit_target q desc statesMap st transition =
     bindp (gen_target desc statesMap st transition) (\<lambda>t. Inr (render_stmts q t))"
  by (simp add: emit_target_def gen_target_def split: option.splits)

lemma emit_transition_gen:
  "emit_transition q desc statesMap st transition =
     bindp (gen_transition desc statesMap st transition) (\<lambda>c. Inr (render_case q c))"
proof (cases "gen_target desc statesMap st transition")
  case (Inl e)
  then show ?thesis
    by (simp add: emit_transition_def gen_transition_def emit_target_gen)
next
  case (Inr t)
  have app: "render_stmts q (xs @ ys) = render_stmts q xs @ render_stmts q ys" for xs ys
    by (induction xs) simp_all
  from Inr show ?thesis
    by (simp add: emit_transition_def gen_transition_def emit_target_gen render_case_def app)
qed

lemma emit_transitions_gen:
  "emit_transitions q desc statesMap st ts =
     bindp (gen_transitions desc statesMap st ts)
       (\<lambda>cs. Inr (concat (map (render_case q) cs)))"
proof (induction ts)
  case Nil
  show ?case by simp
next
  case (Cons t rest)
  show ?case
  proof (cases "gen_transition desc statesMap st t")
    case (Inl e)
    then show ?thesis by (simp add: emit_transition_gen)
  next
    case c: (Inr c)
    show ?thesis
    proof (cases "gen_transitions desc statesMap st rest")
      case (Inl e)
      with c Cons show ?thesis by (simp add: emit_transition_gen)
    next
      case (Inr more)
      with c Cons show ?thesis by (simp add: emit_transition_gen)
    qed
  qed
qed

lemma emit_Event_case_gen:
  "emit_Event_case q desc statesMap st =
     bindp (gen_Event_case desc statesMap st) (\<lambda>c. Inr (render_Event_case q c))"
  by (cases "gen_transitions desc statesMap st (Transitions st)")
     (simp_all add: emit_Event_case_def gen_Event_case_def emit_transitions_gen
        render_Event_case_def)

lemma emit_Event_cases_gen:
  "emit_Event_cases q desc statesMap sts =
     bindp (gen_Event_cases desc statesMap sts)
       (\<lambda>cs. Inr (concat (map (render_Event_case q) cs)))"
proof (induction sts)
  case Nil
  show ?case by simp
next
  case (Cons s rest)
  show ?case
  proof (cases "gen_Event_case desc statesMap s")
    case (Inl e)
    then show ?thesis by (simp add: emit_Event_case_gen)
  next
    case c: (Inr c)
    show ?thesis
    proof (cases "gen_Event_cases desc statesMap rest")
      case (Inl e)
      with c Cons show ?thesis by (simp add: emit_Event_case_gen)
    next
      case (Inr more)
      with c Cons show ?thesis by (simp add: emit_Event_case_gen)
    qed
  qed
qed

lemma emit_SetState_cases_gen:
  "concat (map (emit_SetState_case q desc) states) =
     concat (map (render_case q) (gen_SetState_cases desc states))"
  by (induction states) (simp_all add: emit_SetState_case_def gen_SetState_cases_def render_case_def)

text \<open>
  \<open>compile\<close> panics exactly when \<open>generate\<close> does, with the same panic, and otherwise
  writes the rendering of the program \<open>generate\<close> returns.
\<close>

lemma compile_generate:
  "compile q desc pkg ords =
     bindp (generate desc ords) (\<lambda>prog. Inr (render_program q desc pkg prog))"
proof (cases "index_states (States desc) [] []")
  case (Inl e)
  then show ?thesis by (simp add: compile_def generate_def)
next
  case (Inr maps)
  obtain statesMap eventsMap where maps: "maps = (statesMap, eventsMap)"
    by (cases maps)
  show ?thesis
  proof (cases "map_of statesMap (Init desc)")
    case None
    with Inr maps show ?thesis by (simp add: compile_def generate_def)
  next
    case (Some s0)
    show ?thesis
    proof (cases "gen_consts (map Name (range_states statesMap (ord_StateConsts ords)))")
      case (Inl e)
      with Inr maps Some show ?thesis
        by (simp add: compile_def generate_def emit_state_consts_gen)
    next
      case sc: (Inr sconsts)
      show ?thesis
      proof (cases "gen_consts (range_events eventsMap (ord_EventConsts ords))")
        case (Inl e)
        with Inr maps Some sc show ?thesis
          by (simp add: compile_def generate_def emit_state_consts_gen emit_event_consts_gen)
      next
        case ec: (Inr econsts)
        show ?thesis
        proof (cases "gen_Event_cases desc statesMap (range_states statesMap (ord_Event ords))")
          case (Inl e)
          with Inr maps Some sc ec show ?thesis
            by (simp add: compile_def generate_def emit_state_consts_gen emit_event_consts_gen
                emit_Event_cases_gen)
        next
          case (Inr cases)
          with \<open>index_states (States desc) [] [] = Inr maps\<close> maps Some sc ec show ?thesis
            by (simp add: compile_def generate_def emit_state_consts_gen emit_event_consts_gen
                emit_Event_cases_gen emit_SetState_cases_gen render_program_def)
        qed
      qed
    qed
  qed
qed

lemma compile_Inl_iff: "compile q desc pkg ords = Inl e \<longleftrightarrow> generate desc ords = Inl e"
  by (cases "generate desc ords") (simp_all add: compile_generate)

section \<open>The indexing loop\<close>

lemma index_transitions_Inr:
  "index_transitions ts tm em = Inr em' \<Longrightarrow>
     distinct (map Event ts) \<and> Event ` set ts \<inter> set tm = {} \<and>
     set em' = set em \<union> Event ` set ts \<and> (distinct em \<longrightarrow> distinct em')"
proof (induction ts arbitrary: tm em)
  case Nil
  then show ?case by simp
next
  case (Cons t rest)
  from Cons.prems have notin: "Event t \<notin> set tm"
    and rec: "index_transitions rest (List.insert (Event t) tm) (List.insert (Event t) em) = Inr em'"
    by (auto split: if_splits)
  from Cons.IH [OF rec] notin show ?case by auto
qed

lemma index_transitions_ok:
  "distinct (map Event ts) \<Longrightarrow> Event ` set ts \<inter> set tm = {} \<Longrightarrow>
     \<exists>em'. index_transitions ts tm em = Inr em'"
proof (induction ts arbitrary: tm em)
  case Nil
  then show ?case by simp
next
  case (Cons t rest)
  from Cons.prems have "distinct (map Event rest)"
    and "Event ` set rest \<inter> set (List.insert (Event t) tm) = {}"
    and "Event t \<notin> set tm"
    by auto
  with Cons.IH show ?case by simp
qed

lemma index_transitions_Inl:
  "index_transitions ts tm em = Inl e \<Longrightarrow> \<exists>x. e = DuplicateEvent x"
  by (induction ts arbitrary: tm em) (auto split: if_splits)

lemma index_states_Inr:
  "index_states sts sm em = Inr (sm', em') \<Longrightarrow>
     sm' = sm @ map (\<lambda>s. (Name s, s)) sts \<and>
     distinct (map Name sts) \<and> Name ` set sts \<inter> fst ` set sm = {} \<and>
     (\<forall>s\<in>set sts. distinct (map Event (Transitions s))) \<and>
     set em' = set em \<union> (\<Union>s\<in>set sts. Event ` set (Transitions s)) \<and>
     (distinct em \<longrightarrow> distinct em')"
proof (induction sts arbitrary: sm em)
  case Nil
  then show ?case by simp
next
  case (Cons s rest)
  from Cons.prems have none: "map_of sm (Name s) = None"
    by (cases "map_of sm (Name s)") simp_all
  with Cons.prems obtain em1 where
    tr: "index_transitions (Transitions s) [] em = Inr em1" and
    rec: "index_states rest (sm @ [(Name s, s)]) em1 = Inr (sm', em')"
    by (auto simp: bindp_eq_Inr)
  from none have notin: "Name s \<notin> fst ` set sm"
    by (simp add: map_of_eq_None_iff)
  note t = index_transitions_Inr [OF tr]
  note r = Cons.IH [OF rec]
  from r have "sm' = sm @ map (\<lambda>s. (Name s, s)) (s # rest)" by simp
  moreover from r notin have "distinct (map Name (s # rest))" by auto
  moreover from r notin have "Name ` set (s # rest) \<inter> fst ` set sm = {}" by auto
  moreover from r t have "\<forall>x\<in>set (s # rest). distinct (map Event (Transitions x))" by simp
  moreover from r t have
    "set em' = set em \<union> (\<Union>x\<in>set (s # rest). Event ` set (Transitions x))" by auto
  moreover from r t have "distinct em \<longrightarrow> distinct em'" by simp
  ultimately show ?case by blast
qed

lemma index_states_ok:
  "distinct (map Name sts) \<Longrightarrow> Name ` set sts \<inter> fst ` set sm = {} \<Longrightarrow>
   \<forall>s\<in>set sts. distinct (map Event (Transitions s)) \<Longrightarrow>
     \<exists>r. index_states sts sm em = Inr r"
proof (induction sts arbitrary: sm em)
  case Nil
  then show ?case by simp
next
  case (Cons s rest)
  from Cons.prems have none: "map_of sm (Name s) = None"
    by (auto simp: map_of_eq_None_iff)
  from Cons.prems obtain em1 where tr: "index_transitions (Transitions s) [] em = Inr em1"
    using index_transitions_ok [of "Transitions s" "[]" em] by auto
  from Cons.prems have "distinct (map Name rest)"
    and "Name ` set rest \<inter> fst ` set (sm @ [(Name s, s)]) = {}"
    and "\<forall>x\<in>set rest. distinct (map Event (Transitions x))"
    by auto
  from Cons.IH [OF this] none tr show ?case by simp
qed

lemma index_states_Inl:
  "index_states sts sm em = Inl e \<Longrightarrow> (\<exists>n. e = DuplicateState n) \<or> (\<exists>x. e = DuplicateEvent x)"
proof (induction sts arbitrary: sm em)
  case Nil
  then show ?case by simp
next
  case (Cons s rest)
  show ?case
  proof (cases "map_of sm (Name s)")
    case (Some it)
    with Cons.prems show ?thesis by auto
  next
    case None
    show ?thesis
    proof (cases "index_transitions (Transitions s) [] em")
      case (Inl e')
      with None Cons.prems have "e = e'" by simp
      with Inl index_transitions_Inl show ?thesis by blast
    next
      case (Inr em1)
      with None Cons.prems Cons.IH show ?thesis by simp
    qed
  qed
qed

text \<open>
What the maps of a description that passes the indexing loop hold.
\<close>

lemma index_states_maps:
  assumes "index_states (States desc) [] [] = Inr (statesMap, eventsMap)"
  shows "statesMap = map (\<lambda>s. (Name s, s)) (States desc)"
    and "distinct (map Name (States desc))"
    and "\<forall>s\<in>set (States desc). distinct (map Event (Transitions s))"
    and "set eventsMap = (\<Union>s\<in>set (States desc). Event ` set (Transitions s))"
    and "distinct eventsMap"
  using index_states_Inr [OF assms] by simp_all

lemma no_duplicate_index:
  assumes "\<not> has_duplicate_state desc" and "\<not> has_duplicate_event desc"
  shows "\<exists>eventsMap. index_states (States desc) [] [] =
           Inr (map (\<lambda>s. (Name s, s)) (States desc), eventsMap)"
proof -
  from assms have "distinct (map Name (States desc))"
    and "\<forall>s\<in>set (States desc). distinct (map Event (Transitions s))"
    by (simp_all add: has_duplicate_state_def has_duplicate_event_def list_ex_iff)
  then obtain r where r: "index_states (States desc) [] [] = Inr r"
    using index_states_ok [of "States desc" "[]" "[]"] by auto
  obtain sm em where "r = (sm, em)" by (cases r)
  with r index_states_maps(1) [of desc sm em] show ?thesis by simp
qed

lemma map_of_states:
  assumes "distinct (map Name sts)"
  shows "map_of (map (\<lambda>s. (Name s, s)) sts) n = Some s \<longleftrightarrow> s \<in> set sts \<and> Name s = n"
proof -
  have "distinct (map fst (map (\<lambda>s. (Name s, s)) sts))"
    using assms by (simp add: comp_def)
  then show ?thesis by (auto simp: map_of_eq_Some_iff)
qed

lemma range_states_map:
  assumes "distinct (map Name sts)" and "set ord \<subseteq> Name ` set sts"
  shows "map Name (range_states (map (\<lambda>s. (Name s, s)) sts) ord) = ord \<and>
         set (range_states (map (\<lambda>s. (Name s, s)) sts) ord) = {s \<in> set sts. Name s \<in> set ord}"
  using assms(2)
proof (induction ord)
  case Nil
  show ?case by (simp add: range_states_def map_filter_simps)
next
  case (Cons k rest)
  let ?sm = "map (\<lambda>s. (Name s, s)) sts"
  from Cons.prems obtain s where s: "s \<in> set sts" "Name s = k" by auto
  then have look: "map_of ?sm k = Some s"
    using map_of_states [OF assms(1)] by blast
  have uniq: "x = s" if "x \<in> set sts" "Name x = k" for x
  proof -
    from that have "map_of ?sm k = Some x"
      using map_of_states [OF assms(1)] by blast
    with look show ?thesis by simp
  qed
  from Cons have ih1: "map Name (range_states ?sm rest) = rest"
    and ih2: "set (range_states ?sm rest) = {s \<in> set sts. Name s \<in> set rest}" by simp_all
  have step: "range_states ?sm (k # rest) = s # range_states ?sm rest"
    using look by (simp add: range_states_def map_filter_simps)
  have "map Name (range_states ?sm (k # rest)) = k # rest"
    using ih1 s by (simp add: step)
  moreover have "set (range_states ?sm (k # rest)) = {x \<in> set sts. Name x \<in> set (k # rest)}"
  proof (rule set_eqI)
    fix x
    show "x \<in> set (range_states ?sm (k # rest)) \<longleftrightarrow> x \<in> {x \<in> set sts. Name x \<in> set (k # rest)}"
      using s uniq [of x] by (auto simp: step ih2)
  qed
  ultimately show ?case by simp
qed

lemma range_states_order:
  assumes "distinct (map Name sts)" and "is_order (map Name sts) ord"
  shows "map Name (range_states (map (\<lambda>s. (Name s, s)) sts) ord) = ord"
    and "set (range_states (map (\<lambda>s. (Name s, s)) sts) ord) = set sts"
proof -
  from assms(2) have sub: "set ord \<subseteq> Name ` set sts" and all: "Name ` set sts \<subseteq> set ord"
    by (auto simp: is_order_def)
  from range_states_map [OF assms(1) sub]
  show "map Name (range_states (map (\<lambda>s. (Name s, s)) sts) ord) = ord" by simp
  from range_states_map [OF assms(1) sub] all
  show "set (range_states (map (\<lambda>s. (Name s, s)) sts) ord) = set sts" by auto
qed

lemma range_events_order: "is_order em ord \<Longrightarrow> range_events em ord = ord"
  by (simp add: is_order_def range_events_def)

lemma range_states_mset:
  assumes d: "distinct (map Name sts)"
    and o1: "is_order (map Name sts) ord1" and o2: "is_order (map Name sts) ord2"
  shows "mset (range_states (map (\<lambda>s. (Name s, s)) sts) ord1) =
         mset (range_states (map (\<lambda>s. (Name s, s)) sts) ord2)"
proof -
  let ?r1 = "range_states (map (\<lambda>s. (Name s, s)) sts) ord1"
  let ?r2 = "range_states (map (\<lambda>s. (Name s, s)) sts) ord2"
  note a = range_states_order [OF d o1]
  note b = range_states_order [OF d o2]
  from o1 a(1) have "distinct (map Name ?r1)" by (simp add: is_order_def)
  then have d1: "distinct ?r1" by (simp add: distinct_map)
  from o2 b(1) have "distinct (map Name ?r2)" by (simp add: is_order_def)
  then have d2: "distinct ?r2" by (simp add: distinct_map)
  from a(2) b(2) have "set ?r1 = set ?r2" by simp
  with d1 d2 show ?thesis by (simp add: set_eq_iff_mset_eq_distinct)
qed

lemma order_mset: "is_order ks ord1 \<Longrightarrow> is_order ks ord2 \<Longrightarrow> mset ord1 = mset ord2"
  by (simp add: is_order_def set_eq_iff_mset_eq_distinct [symmetric])

section \<open>The generated program\<close>

lemma switch_found:
  "distinct (map fst cases) \<Longrightarrow> (k, v) \<in> set cases \<Longrightarrow> switch k cases = Some v"
proof (induction cases)
  case Nil
  then show ?case by simp
next
  case (Cons c rest)
  then show ?case by (cases c) (auto simp: switch_def image_iff)
qed

lemma switch_missing: "k \<notin> fst ` set cases \<Longrightarrow> switch k cases = None"
  by (induction cases) (auto simp: switch_def)


lemma gen_transition_fst:
  "gen_transition desc sm st t = Inr c \<Longrightarrow> fst c = Event t"
  by (auto simp: gen_transition_def bindp_eq_Inr Let_def)

lemma gen_transitions_Inr:
  "gen_transitions desc sm st ts = Inr cs \<Longrightarrow>
     map fst cs = map Event ts \<and>
     (\<forall>t\<in>set ts. \<exists>c\<in>set cs. gen_transition desc sm st t = Inr c)"
proof (induction ts arbitrary: cs)
  case Nil
  then show ?case by simp
next
  case (Cons t rest)
  from Cons.prems obtain c more where
    c: "gen_transition desc sm st t = Inr c" and
    more: "gen_transitions desc sm st rest = Inr more" and
    cs: "cs = c # more"
    by (auto simp: bindp_eq_Inr)
  from Cons.IH [OF more] c cs gen_transition_fst [OF c] show ?case by auto
qed

lemma gen_Event_cases_Inr:
  "gen_Event_cases desc sm sts = Inr cases \<Longrightarrow>
     map fst cases = map Name sts \<and>
     (\<forall>s\<in>set sts. \<exists>ts. gen_transitions desc sm s (Transitions s) = Inr ts \<and>
        (Name s, ts) \<in> set cases)"
proof (induction sts arbitrary: cases)
  case Nil
  then show ?case by simp
next
  case (Cons s rest)
  from Cons.prems obtain ts more where
    ts: "gen_transitions desc sm s (Transitions s) = Inr ts" and
    more: "gen_Event_cases desc sm rest = Inr more" and
    cs: "cases = (Name s, ts) # more"
    by (auto simp: bindp_eq_Inr gen_Event_case_def)
  from Cons.IH [OF more] ts cs show ?case by auto
qed

lemma gen_Event_cases_map:
  "gen_Event_cases desc sm sts = Inr cs \<longleftrightarrow>
     (\<forall>s\<in>set sts. \<exists>c. gen_Event_case desc sm s = Inr c) \<and>
     cs = map (\<lambda>s. projr (gen_Event_case desc sm s)) sts"
proof (induction sts arbitrary: cs)
  case Nil
  show ?case by auto
next
  case (Cons s rest)
  show ?case
  proof (cases "gen_Event_case desc sm s")
    case (Inl e)
    then show ?thesis by simp
  next
    case c: (Inr c)
    show ?thesis
    proof (cases "gen_Event_cases desc sm rest")
      case (Inl e)
      with Cons.IH have "\<not> (\<forall>s\<in>set rest. \<exists>c. gen_Event_case desc sm s = Inr c)"
        by (metis sum.distinct(1))
      with Inl c show ?thesis by simp
    next
      case (Inr more)
      with Cons.IH [of more] have "\<forall>s\<in>set rest. \<exists>c. gen_Event_case desc sm s = Inr c"
        and "more = map (\<lambda>s. projr (gen_Event_case desc sm s)) rest" by simp_all
      with Inr c show ?thesis by auto
    qed
  qed
qed

lemma gen_consts_Inl: "gen_consts ks = Inl e \<Longrightarrow> e = IndexOutOfRange"
proof (induction ks)
  case Nil
  then show ?case by simp
next
  case (Cons k rest)
  show ?case
  proof (cases k)
    case Nil
    with Cons.prems show ?thesis by simp
  next
    case (Cons c cs)
    with Cons.prems Cons.IH show ?thesis
      by (cases "gen_consts rest") simp_all
  qed
qed

lemma gen_target_Inl:
  "gen_target desc sm st t = Inl e \<Longrightarrow> e = TargetMissing (Name st) (To t) (Event t)"
  by (simp add: gen_target_def split: if_splits option.splits)

lemma gen_transition_Inl:
  "gen_transition desc sm st t = Inl e \<Longrightarrow> e = TargetMissing (Name st) (To t) (Event t)"
  by (cases "gen_target desc sm st t") (simp_all add: gen_transition_def Let_def gen_target_Inl)

lemma gen_transitions_Inl:
  "gen_transitions desc sm st ts = Inl e \<Longrightarrow> \<exists>t\<in>set ts. e = TargetMissing (Name st) (To t) (Event t)"
proof (induction ts)
  case Nil
  then show ?case by simp
next
  case (Cons t rest)
  show ?case
  proof (cases "gen_transition desc sm st t")
    case (Inl e')
    with Cons.prems have "e = e'" by simp
    with Inl gen_transition_Inl show ?thesis by simp
  next
    case (Inr c)
    with Cons.prems have "gen_transitions desc sm st rest = Inl e"
      by (cases "gen_transitions desc sm st rest") simp_all
    with Cons.IH show ?thesis by simp
  qed
qed

lemma gen_Event_cases_Inl:
  "gen_Event_cases desc sm sts = Inl e \<Longrightarrow>
     \<exists>s\<in>set sts. \<exists>t\<in>set (Transitions s). e = TargetMissing (Name s) (To t) (Event t)"
proof (induction sts)
  case Nil
  then show ?case by simp
next
  case (Cons s rest)
  show ?case
  proof (cases "gen_transitions desc sm s (Transitions s)")
    case (Inl e')
    with Cons.prems have "e = e'" by (simp add: gen_Event_case_def)
    with Inl gen_transitions_Inl show ?thesis by simp
  next
    case (Inr c)
    with Cons.prems have "gen_Event_cases desc sm rest = Inl e"
      by (cases "gen_Event_cases desc sm rest") (simp_all add: gen_Event_case_def)
    with Cons.IH show ?thesis by simp
  qed
qed

text \<open>
  The cases of \<open>Event\<close> are generated exactly when no transition has a non-empty target
  outside the map of states, and a panic names such a transition.
\<close>

lemma gen_target_Inl_dangling:
  "gen_target desc sm st t = Inl e \<Longrightarrow>
     e = TargetMissing (Name st) (To t) (Event t) \<and> To t \<noteq> [] \<and> map_of sm (To t) = None"
  by (cases "map_of sm (To t)") (simp_all add: gen_target_def split: if_splits)

lemma gen_target_Inr_iff:
  "(\<exists>b. gen_target desc sm st t = Inr b) \<longleftrightarrow> To t = [] \<or> map_of sm (To t) \<noteq> None"
  by (cases "map_of sm (To t)") (simp_all add: gen_target_def)

lemma gen_transition_Inl_dangling:
  "gen_transition desc sm st t = Inl e \<Longrightarrow>
     e = TargetMissing (Name st) (To t) (Event t) \<and> To t \<noteq> [] \<and> map_of sm (To t) = None"
proof (cases "gen_target desc sm st t")
  case (Inl e')
  assume "gen_transition desc sm st t = Inl e"
  with Inl have "e = e'" by (simp add: gen_transition_def)
  with gen_target_Inl_dangling [OF Inl] show ?thesis by simp
next
  case (Inr b)
  assume "gen_transition desc sm st t = Inl e"
  with Inr show ?thesis by (simp add: gen_transition_def Let_def)
qed

lemma gen_transition_Inr_iff:
  "(\<exists>c. gen_transition desc sm st t = Inr c) \<longleftrightarrow> To t = [] \<or> map_of sm (To t) \<noteq> None"
proof (cases "gen_target desc sm st t")
  case (Inl e)
  then have "\<not> (\<exists>b. gen_target desc sm st t = Inr b)" by simp
  with Inl show ?thesis
    unfolding gen_target_Inr_iff by (simp add: gen_transition_def)
next
  case (Inr b)
  then have "\<exists>b. gen_target desc sm st t = Inr b" by blast
  with Inr show ?thesis
    unfolding gen_target_Inr_iff by (simp add: gen_transition_def Let_def)
qed

lemma gen_transitions_result:
  "(gen_transitions desc sm st ts = Inl e \<longrightarrow>
      (\<exists>t\<in>set ts. e = TargetMissing (Name st) (To t) (Event t) \<and> To t \<noteq> [] \<and>
         map_of sm (To t) = None)) \<and>
   ((\<exists>cs. gen_transitions desc sm st ts = Inr cs) \<longleftrightarrow>
      (\<forall>t\<in>set ts. To t = [] \<or> map_of sm (To t) \<noteq> None))"
proof (induction ts)
  case Nil
  show ?case by simp
next
  case (Cons t rest)
  show ?case
  proof (cases "gen_transition desc sm st t")
    case (Inl e')
    from gen_transition_Inl_dangling [OF Inl] have d: "e' = TargetMissing (Name st) (To t) (Event t)"
      "To t \<noteq> []" "map_of sm (To t) = None" by simp_all
    from Inl have g: "gen_transitions desc sm st (t # rest) = Inl e'" by simp
    have 1: "gen_transitions desc sm st (t # rest) = Inl e \<longrightarrow>
      (\<exists>u\<in>set (t # rest). e = TargetMissing (Name st) (To u) (Event u) \<and> To u \<noteq> [] \<and>
         map_of sm (To u) = None)"
      using g d by auto
    have 2: "(\<exists>cs. gen_transitions desc sm st (t # rest) = Inr cs) \<longleftrightarrow>
      (\<forall>u\<in>set (t # rest). To u = [] \<or> map_of sm (To u) \<noteq> None)"
      using g d by auto
    from 1 2 show ?thesis by blast
  next
    case (Inr c)
    then have ok: "To t = [] \<or> map_of sm (To t) \<noteq> None"
      using gen_transition_Inr_iff [of desc sm st t] by blast
    show ?thesis
    proof (cases "gen_transitions desc sm st rest")
      case (Inl e')
      with Inr have g: "gen_transitions desc sm st (t # rest) = Inl e'" by simp
      from Inl Cons.IH have ih: "gen_transitions desc sm st rest = Inl e \<longrightarrow>
        (\<exists>u\<in>set rest. e = TargetMissing (Name st) (To u) (Event u) \<and> To u \<noteq> [] \<and>
           map_of sm (To u) = None)"
        and nih: "\<not> (\<forall>u\<in>set rest. To u = [] \<or> map_of sm (To u) \<noteq> None)"
        by simp_all
      have 1: "gen_transitions desc sm st (t # rest) = Inl e \<longrightarrow>
        (\<exists>u\<in>set (t # rest). e = TargetMissing (Name st) (To u) (Event u) \<and> To u \<noteq> [] \<and>
           map_of sm (To u) = None)"
        using g ih Inl by auto
      have 2: "(\<exists>cs. gen_transitions desc sm st (t # rest) = Inr cs) \<longleftrightarrow>
        (\<forall>u\<in>set (t # rest). To u = [] \<or> map_of sm (To u) \<noteq> None)"
        using g nih by auto
      from 1 2 show ?thesis by blast
    next
      case more: (Inr more)
      with Inr have g: "gen_transitions desc sm st (t # rest) = Inr (c # more)" by simp
      from more Cons.IH have "\<forall>u\<in>set rest. To u = [] \<or> map_of sm (To u) \<noteq> None"
        by blast
      with ok g show ?thesis by simp
    qed
  qed
qed

lemma gen_Event_cases_result:
  "(gen_Event_cases desc sm sts = Inl e \<longrightarrow>
      (\<exists>s\<in>set sts. \<exists>t\<in>set (Transitions s).
         e = TargetMissing (Name s) (To t) (Event t) \<and> To t \<noteq> [] \<and>
         map_of sm (To t) = None)) \<and>
   ((\<exists>cs. gen_Event_cases desc sm sts = Inr cs) \<longleftrightarrow>
      (\<forall>s\<in>set sts. \<forall>t\<in>set (Transitions s). To t = [] \<or> map_of sm (To t) \<noteq> None))"
proof (induction sts)
  case Nil
  show ?case by simp
next
  case (Cons s rest)
  note r = gen_transitions_result [of desc sm s "Transitions s"]
  show ?case
  proof (cases "gen_transitions desc sm s (Transitions s)")
    case (Inl e')
    then have g: "gen_Event_cases desc sm (s # rest) = Inl e'"
      by (simp add: gen_Event_case_def)
    from r [of e'] Inl have d: "\<exists>t\<in>set (Transitions s).
        e' = TargetMissing (Name s) (To t) (Event t) \<and> To t \<noteq> [] \<and> map_of sm (To t) = None"
      by blast
    have 1: "gen_Event_cases desc sm (s # rest) = Inl e \<longrightarrow>
      (\<exists>u\<in>set (s # rest). \<exists>t\<in>set (Transitions u).
         e = TargetMissing (Name u) (To t) (Event t) \<and> To t \<noteq> [] \<and>
         map_of sm (To t) = None)"
      using g d by auto
    from d have "\<not> (\<forall>u\<in>set (s # rest). \<forall>t\<in>set (Transitions u).
        To t = [] \<or> map_of sm (To t) \<noteq> None)" by auto
    with g have 2: "(\<exists>cs. gen_Event_cases desc sm (s # rest) = Inr cs) \<longleftrightarrow>
      (\<forall>u\<in>set (s # rest). \<forall>t\<in>set (Transitions u). To t = [] \<or> map_of sm (To t) \<noteq> None)"
      by simp
    from 1 2 show ?thesis by blast
  next
    case (Inr ts)
    with r have ok: "\<forall>t\<in>set (Transitions s). To t = [] \<or> map_of sm (To t) \<noteq> None"
      by blast
    from Inr have c: "gen_Event_case desc sm s = Inr (Name s, ts)"
      by (simp add: gen_Event_case_def)
    show ?thesis
    proof (cases "gen_Event_cases desc sm rest")
      case (Inl e')
      with c have g: "gen_Event_cases desc sm (s # rest) = Inl e'" by simp
      from Inl Cons.IH have ih: "gen_Event_cases desc sm rest = Inl e \<longrightarrow>
        (\<exists>u\<in>set rest. \<exists>t\<in>set (Transitions u).
           e = TargetMissing (Name u) (To t) (Event t) \<and> To t \<noteq> [] \<and>
           map_of sm (To t) = None)"
        and nih: "\<not> (\<forall>u\<in>set rest. \<forall>t\<in>set (Transitions u).
           To t = [] \<or> map_of sm (To t) \<noteq> None)"
        by simp_all
      have 1: "gen_Event_cases desc sm (s # rest) = Inl e \<longrightarrow>
        (\<exists>u\<in>set (s # rest). \<exists>t\<in>set (Transitions u).
           e = TargetMissing (Name u) (To t) (Event t) \<and> To t \<noteq> [] \<and>
           map_of sm (To t) = None)"
        using g ih Inl by auto
      have 2: "(\<exists>cs. gen_Event_cases desc sm (s # rest) = Inr cs) \<longleftrightarrow>
        (\<forall>u\<in>set (s # rest). \<forall>t\<in>set (Transitions u). To t = [] \<or> map_of sm (To t) \<noteq> None)"
        using g nih by auto
      from 1 2 show ?thesis by blast
    next
      case more: (Inr more)
      with c have g: "gen_Event_cases desc sm (s # rest) = Inr ((Name s, ts) # more)" by simp
      from more Cons.IH have "\<forall>u\<in>set rest. \<forall>t\<in>set (Transitions u).
          To t = [] \<or> map_of sm (To t) \<noteq> None"
        by blast
      with ok g show ?thesis by simp
    qed
  qed
qed

text \<open>
What \<open>generate\<close> has checked and built when it returns a program.
\<close>

lemma generate_Inr:
  assumes "generate desc ords = Inr prog"
  shows "\<exists>eventsMap.
      index_states (States desc) [] [] = Inr (map (\<lambda>s. (Name s, s)) (States desc), eventsMap) \<and>
      Init desc \<in> Name ` set (States desc) \<and>
      gen_consts (map Name (range_states (map (\<lambda>s. (Name s, s)) (States desc))
        (ord_StateConsts ords))) = Inr (State_consts prog) \<and>
      gen_consts (range_events eventsMap (ord_EventConsts ords)) = Inr (Event_consts prog) \<and>
      gen_Event_cases desc (map (\<lambda>s. (Name s, s)) (States desc))
        (range_states (map (\<lambda>s. (Name s, s)) (States desc)) (ord_Event ords))
        = Inr (Event_cases prog) \<and>
      SetState_cases prog =
        gen_SetState_cases desc
          (range_states (map (\<lambda>s. (Name s, s)) (States desc)) (ord_SetState ords))"
proof -
  from assms obtain maps where idx: "index_states (States desc) [] [] = Inr maps"
    by (auto simp: generate_def bindp_eq_Inr)
  obtain statesMap eventsMap where maps: "maps = (statesMap, eventsMap)"
    by (cases maps)
  note facts = index_states_maps [OF idx [unfolded maps]]
  let ?sm = "map (\<lambda>s. (Name s, s)) (States desc)"
  from facts(1) have sm: "statesMap = ?sm" .
  have init: "map_of statesMap (Init desc) \<noteq> None"
  proof
    assume "map_of statesMap (Init desc) = None"
    with assms show False unfolding generate_def idx maps by simp
  qed
  then obtain s0 where "map_of statesMap (Init desc) = Some s0"
    by blast
  then have "map_of ?sm (Init desc) = Some s0"
    unfolding sm .
  then have "s0 \<in> set (States desc)" and "Name s0 = Init desc"
    unfolding map_of_states [OF facts(2)] by simp_all
  then have i: "Init desc \<in> Name ` set (States desc)"
    by (metis image_eqI)
  from init have init': "(map_of statesMap (Init desc) = None) = False" by simp
  from assms have
    "bindp (gen_consts (map Name (range_states statesMap (ord_StateConsts ords)))) (\<lambda>sconsts.
     bindp (gen_consts (range_events eventsMap (ord_EventConsts ords))) (\<lambda>econsts.
     bindp (gen_Event_cases desc statesMap (range_states statesMap (ord_Event ords)))
       (\<lambda>cases.
     Inr \<lparr>SetState_cases =
            gen_SetState_cases desc (range_states statesMap (ord_SetState ords)),
          State_consts = sconsts, Event_consts = econsts, Event_cases = cases\<rparr>))) = Inr prog"
    unfolding generate_def idx maps by (simp add: init')
  then obtain sc ec cs where
    sc: "gen_consts (map Name (range_states statesMap (ord_StateConsts ords))) = Inr sc" and
    ec: "gen_consts (range_events eventsMap (ord_EventConsts ords)) = Inr ec" and
    cs: "gen_Event_cases desc statesMap (range_states statesMap (ord_Event ords)) = Inr cs" and
    prog: "Inr \<lparr>SetState_cases =
              gen_SetState_cases desc (range_states statesMap (ord_SetState ords)),
            State_consts = sc, Event_consts = ec, Event_cases = cs\<rparr> = Inr prog"
    unfolding bindp_eq_Inr by blast
  from prog have prog': "prog = \<lparr>SetState_cases =
              gen_SetState_cases desc (range_states statesMap (ord_SetState ords)),
            State_consts = sc, Event_consts = ec, Event_cases = cs\<rparr>"
    by (metis sum.inject(2))
  have p1: "State_consts prog = sc" "Event_consts prog = ec" "Event_cases prog = cs"
    "SetState_cases prog = gen_SetState_cases desc (range_states statesMap (ord_SetState ords))"
    unfolding prog' by simp_all
  from idx maps sm have "index_states (States desc) [] [] = Inr (?sm, eventsMap)" by simp
  with i sc ec cs p1 show ?thesis unfolding sm by blast
qed

lemma generate_distinct:
  assumes "generate desc ords = Inr prog"
  shows "distinct (map Name (States desc))"
    and "\<forall>s\<in>set (States desc). distinct (map Event (Transitions s))"
proof -
  from generate_Inr [OF assms] obtain eventsMap where
    "index_states (States desc) [] [] = Inr (map (\<lambda>s. (Name s, s)) (States desc), eventsMap)"
    by blast
  from index_states_maps [OF this]
  show "distinct (map Name (States desc))"
    and "\<forall>s\<in>set (States desc). distinct (map Event (Transitions s))"
    by simp_all
qed

lemma admissible_orders:
  assumes "generate desc ords = Inr prog" and "admissible desc ords"
  shows "is_order (map Name (States desc)) (ord_SetState ords)"
    and "is_order (map Name (States desc)) (ord_StateConsts ords)"
    and "is_order (map Name (States desc)) (ord_Event ords)"
proof -
  from generate_Inr [OF assms(1)] obtain eventsMap where
    "index_states (States desc) [] [] = Inr (map (\<lambda>s. (Name s, s)) (States desc), eventsMap)"
    by blast
  with assms(2) have "orders_ok (map (\<lambda>s. (Name s, s)) (States desc)) eventsMap ords"
    by (simp add: admissible_def)
  then show "is_order (map Name (States desc)) (ord_SetState ords)"
    and "is_order (map Name (States desc)) (ord_StateConsts ords)"
    and "is_order (map Name (States desc)) (ord_Event ords)"
    by (simp_all add: orders_ok_def comp_def)
qed

text \<open>
The outer switch of \<open>Event\<close>, for a state of the description and for any other state.
\<close>

lemma Event_cases_state:
  assumes gen: "generate desc ords = Inr prog" and adm: "admissible desc ords"
    and st: "st \<in> set (States desc)"
  shows "\<exists>ts. gen_transitions desc (map (\<lambda>s. (Name s, s)) (States desc)) st (Transitions st)
                 = Inr ts \<and>
              switch (Name st) (Event_cases prog) = Some ts"
proof -
  let ?sm = "map (\<lambda>s. (Name s, s)) (States desc)"
  let ?sts = "range_states ?sm (ord_Event ords)"
  note d = generate_distinct [OF gen]
  note ord = admissible_orders(3) [OF gen adm]
  note rs = range_states_order [OF d(1) ord]
  from generate_Inr [OF gen] have cases: "gen_Event_cases desc ?sm ?sts = Inr (Event_cases prog)"
    by blast
  note ec = gen_Event_cases_Inr [OF cases]
  from ec rs(1) ord have dist: "distinct (map fst (Event_cases prog))"
    by (simp add: is_order_def)
  from st rs(2) have "st \<in> set ?sts" by simp
  with ec obtain ts where ts: "gen_transitions desc ?sm st (Transitions st) = Inr ts"
    and mem: "(Name st, ts) \<in> set (Event_cases prog)" by blast
  from switch_found [OF dist mem] ts show ?thesis by blast
qed

lemma Event_cases_undeclared:
  assumes gen: "generate desc ords = Inr prog" and adm: "admissible desc ords"
    and cur: "cur \<notin> Name ` set (States desc)"
  shows "switch cur (Event_cases prog) = None"
proof -
  let ?sm = "map (\<lambda>s. (Name s, s)) (States desc)"
  let ?sts = "range_states ?sm (ord_Event ords)"
  note d = generate_distinct [OF gen]
  note ord = admissible_orders(3) [OF gen adm]
  note rs = range_states_order [OF d(1) ord]
  from generate_Inr [OF gen] have cases: "gen_Event_cases desc ?sm ?sts = Inr (Event_cases prog)"
    by blast
  from gen_Event_cases_Inr [OF cases] rs(1) have "map fst (Event_cases prog) = ord_Event ords"
    by simp
  then have "fst ` set (Event_cases prog) = set (ord_Event ords)"
    by (metis set_map)
  with ord cur have "cur \<notin> fst ` set (Event_cases prog)"
    by (simp add: is_order_def)
  then show ?thesis by (rule switch_missing)
qed

text \<open>
\<open>Event\<close> on a transition of the current state runs the body of its case.
\<close>

lemma run_Event_matched:
  assumes gen: "generate desc ords = Inr prog" and adm: "admissible desc ords"
    and st: "st \<in> set (States desc)" and cur: "state m = Name st"
    and tr: "tr \<in> set (Transitions st)"
  shows "\<exists>body. gen_transition desc (map (\<lambda>s. (Name s, s)) (States desc)) st tr
                   = Inr (Event tr, body) \<and>
           run_Event cb prog (Event tr) m =
             (case exec_stmts cb (Event tr) body m of
                (err, m') \<Rightarrow> (map_option CallbackError err, m'))"
proof -
  let ?sm = "map (\<lambda>s. (Name s, s)) (States desc)"
  from Event_cases_state [OF gen adm st] obtain ts where
    ts: "gen_transitions desc ?sm st (Transitions st) = Inr ts" and
    sw: "switch (Name st) (Event_cases prog) = Some ts" by blast
  note g = gen_transitions_Inr [OF ts]
  from generate_distinct(2) [OF gen] st g have dist: "distinct (map fst ts)" by simp
  from g tr obtain c where c: "c \<in> set ts" "gen_transition desc ?sm st tr = Inr c" by blast
  from gen_transition_fst [OF c(2)] have fst: "fst c = Event tr" .
  then have c_eq: "c = (Event tr, snd c)" by (cases c) simp
  with c(1) have "(Event tr, snd c) \<in> set ts" by simp
  from switch_found [OF dist this] have sw2: "switch (Event tr) ts = Some (snd c)" .
  from c(2) c_eq have "gen_transition desc ?sm st tr = Inr (Event tr, snd c)" by simp
  moreover from sw sw2 cur have "run_Event cb prog (Event tr) m =
      (case exec_stmts cb (Event tr) (snd c) m of
         (err, m') \<Rightarrow> (map_option CallbackError err, m'))"
    by (simp add: run_Event_def)
  ultimately show ?thesis by blast
qed



lemma call_condition_state:
  assumes "call_condition cb f ev m = (r, m')"
  shows "state m' = state m \<and> calls m' = calls m @ [(f, ev, state m)]"
proof -
  obtain res w where aw: "condition_fn cb f ev (state m) (world m) = (res, w)"
    by (cases "condition_fn cb f ev (state m) (world m)")
  from assms have "m' = m\<lparr>world := w, calls := calls m @ [(f, ev, state m)]\<rparr>"
    unfolding call_condition_def aw by simp
  then show ?thesis by simp
qed


section \<open>Identifiers\<close>

lemma unicode_ToUpper_bound: "r < 256 \<Longrightarrow> unicode_ToUpper r < 0x800"
  unfolding unicode_ToUpper_def by (simp split: if_splits) arith

lemma of_char_bound: "of_char c < (256::nat)"
proof -
  have "of_char c = (of_char c :: nat) mod 256" by (simp only: of_char_mod_256)
  also have "\<dots> < 256" by simp
  finally show ?thesis .
qed

lemma rune_string_head:
  assumes "u < 0x800"
  shows "(u < 0x80 \<longrightarrow> length (rune_string u) = 1 \<and> of_char (hd (rune_string u)) < (0x80::nat)) \<and>
         (\<not> u < 0x80 \<longrightarrow> length (rune_string u) = 2 \<and> (0x80::nat) \<le> of_char (hd (rune_string u)))"
proof (intro conjI impI)
  assume "u < 0x80"
  then show "length (rune_string u) = 1" by (simp add: rune_string_def)
  from \<open>u < 0x80\<close> show "of_char (hd (rune_string u)) < (0x80::nat)"
    by (simp add: rune_string_def)
next
  assume "\<not> u < 0x80"
  then show "length (rune_string u) = 2" by (simp add: rune_string_def)
  from assms have "u div 64 < 32" by simp
  then have "(0xC0 + u div 64) mod 256 = 0xC0 + u div 64" by simp
  with \<open>\<not> u < 0x80\<close> show "(0x80::nat) \<le> of_char (hd (rune_string u))"
    by (simp add: rune_string_def)
qed

lemma rune_string_prefix_free:
  assumes u: "u < 0x800" and v: "v < 0x800"
    and eq: "rune_string u @ r = rune_string v @ r'"
  shows "rune_string u = rune_string v \<and> r = r'"
proof -
  from u have nu: "rune_string u \<noteq> []" by (simp add: rune_string_def)
  from v have nv: "rune_string v \<noteq> []" by (simp add: rune_string_def)
  from eq nu nv have hd: "hd (rune_string u) = hd (rune_string v)"
    by (metis hd_append2)
  have "length (rune_string u) = length (rune_string v)"
  proof (cases "u < 0x80")
    case True
    with rune_string_head [OF u] have "of_char (hd (rune_string v)) < (0x80::nat)"
      unfolding hd by simp
    with rune_string_head [OF v] have "v < 0x80" by (cases "v < 0x80") simp_all
    with True rune_string_head [OF u] rune_string_head [OF v] show ?thesis by simp
  next
    case False
    with rune_string_head [OF u] have "(0x80::nat) \<le> of_char (hd (rune_string v))"
      unfolding hd by simp
    with rune_string_head [OF v] have "\<not> v < 0x80" by (cases "v < 0x80") simp_all
    with False rune_string_head [OF u] rune_string_head [OF v] show ?thesis by simp
  qed
  with eq show ?thesis by simp
qed

lemma ToUpper_byte_prefix_free:
  "ToUpper_byte a @ r = ToUpper_byte b @ r' \<longleftrightarrow> ToUpper_byte a = ToUpper_byte b \<and> r = r'"
proof
  assume "ToUpper_byte a @ r = ToUpper_byte b @ r'"
  then show "ToUpper_byte a = ToUpper_byte b \<and> r = r'"
    unfolding ToUpper_byte_def
    by (rule rune_string_prefix_free [OF unicode_ToUpper_bound [OF of_char_bound]
          unicode_ToUpper_bound [OF of_char_bound]])
next
  assume "ToUpper_byte a = ToUpper_byte b \<and> r = r'"
  then show "ToUpper_byte a @ r = ToUpper_byte b @ r'" by simp
qed

lemma camel_Inr_iff: "camel k = Inr c \<longleftrightarrow> k \<noteq> [] \<and> c = ToUpper_byte (hd k) @ tl k"
  by (cases k) auto

lemma gen_consts_Inr_iff:
  "gen_consts ks = Inr cs \<longleftrightarrow>
     [] \<notin> set ks \<and> cs = map (\<lambda>k. (ToUpper_byte (hd k) @ tl k, k)) ks"
proof (induction ks arbitrary: cs)
  case Nil
  show ?case by auto
next
  case (Cons k rest)
  show ?case
  proof (cases k)
    case Nil
    then show ?thesis by simp
  next
    case (Cons c w)
    show ?thesis
    proof (cases "gen_consts rest")
      case (Inl e)
      with Cons.IH have "\<not> ([] \<notin> set rest)" by (metis sum.distinct(1))
      with Inl Cons show ?thesis by simp
    next
      case (Inr more)
      with Cons.IH [of more] have "[] \<notin> set rest"
        and "more = map (\<lambda>k. (ToUpper_byte (hd k) @ tl k, k)) rest" by simp_all
      with Inr Cons show ?thesis by auto
    qed
  qed
qed

lemma generate_consts:
  assumes gen: "generate desc ords = Inr prog" and adm: "admissible desc ords"
  shows "State_consts prog = map (\<lambda>k. (ToUpper_byte (hd k) @ tl k, k)) (ord_StateConsts ords)"
    and "Event_consts prog = map (\<lambda>k. (ToUpper_byte (hd k) @ tl k, k)) (ord_EventConsts ords)"
    and "distinct (ord_StateConsts ords)"
    and "set (ord_StateConsts ords) = Name ` set (States desc)"
    and "distinct (ord_EventConsts ords)"
    and "set (ord_EventConsts ords) = (\<Union>s\<in>set (States desc). Event ` set (Transitions s))"
    and "[] \<notin> set (ord_StateConsts ords)"
    and "[] \<notin> set (ord_EventConsts ords)"
proof -
  let ?sm = "map (\<lambda>s. (Name s, s)) (States desc)"
  from generate_Inr [OF gen] obtain em where
    idx: "index_states (States desc) [] [] = Inr (?sm, em)" and
    sc: "gen_consts (map Name (range_states ?sm (ord_StateConsts ords))) = Inr (State_consts prog)" and
    ec: "gen_consts (range_events em (ord_EventConsts ords)) = Inr (Event_consts prog)"
    by blast
  note d = generate_distinct [OF gen]
  note o1 = admissible_orders(2) [OF gen adm]
  from adm idx have o2: "is_order em (ord_EventConsts ords)"
    by (simp add: admissible_def orders_ok_def)
  from sc range_states_order(1) [OF d(1) o1]
  have sc': "gen_consts (ord_StateConsts ords) = Inr (State_consts prog)" by simp
  from ec range_events_order [OF o2]
  have ec': "gen_consts (ord_EventConsts ords) = Inr (Event_consts prog)" by simp
  from sc' show "State_consts prog = map (\<lambda>k. (ToUpper_byte (hd k) @ tl k, k)) (ord_StateConsts ords)"
    and "[] \<notin> set (ord_StateConsts ords)"
    by (simp_all add: gen_consts_Inr_iff)
  from ec' show "Event_consts prog = map (\<lambda>k. (ToUpper_byte (hd k) @ tl k, k)) (ord_EventConsts ords)"
    and "[] \<notin> set (ord_EventConsts ords)"
    by (simp_all add: gen_consts_Inr_iff)
  from o1 show "distinct (ord_StateConsts ords)"
    and "set (ord_StateConsts ords) = Name ` set (States desc)"
    by (simp_all add: is_order_def)
  from o2 index_states_maps(4) [OF idx] show "distinct (ord_EventConsts ords)"
    and "set (ord_EventConsts ords) = (\<Union>s\<in>set (States desc). Event ` set (Transitions s))"
    by (simp_all add: is_order_def)
qed

lemma consts_identifiers:
  assumes cs: "cs = map (\<lambda>k. (ToUpper_byte (hd k) @ tl k, k)) ks" and ne: "[] \<notin> set ks"
  shows "\<forall>c\<in>set cs. camel (snd c) = Inr (fst c)"
    and "\<forall>c\<in>set cs. \<forall>c'\<in>set cs.
           fst c = fst c' \<longleftrightarrow>
           ToUpper_byte (hd (snd c)) = ToUpper_byte (hd (snd c')) \<and> tl (snd c) = tl (snd c')"
proof -
  show "\<forall>c\<in>set cs. camel (snd c) = Inr (fst c)"
  proof
    fix c assume "c \<in> set cs"
    with cs obtain k where "k \<in> set ks" and c: "c = (ToUpper_byte (hd k) @ tl k, k)" by auto
    with ne have "k \<noteq> []" by auto
    with c show "camel (snd c) = Inr (fst c)" by (simp add: camel_Inr_iff)
  qed
  show "\<forall>c\<in>set cs. \<forall>c'\<in>set cs.
           fst c = fst c' \<longleftrightarrow>
           ToUpper_byte (hd (snd c)) = ToUpper_byte (hd (snd c')) \<and> tl (snd c) = tl (snd c')"
  proof (intro ballI)
    fix c c' assume "c \<in> set cs" "c' \<in> set cs"
    with cs obtain k k' where "c = (ToUpper_byte (hd k) @ tl k, k)"
      "c' = (ToUpper_byte (hd k') @ tl k', k')" by auto
    then show "fst c = fst c' \<longleftrightarrow>
        ToUpper_byte (hd (snd c)) = ToUpper_byte (hd (snd c')) \<and> tl (snd c) = tl (snd c')"
      by (simp add: ToUpper_byte_prefix_free)
  qed
qed

section \<open>Validation after the indexing loop\<close>

lemma compile_after_index:
  assumes nd: "\<not> has_duplicate_state desc" "\<not> has_duplicate_event desc"
  shows "init_missing desc \<Longrightarrow> compile q desc pkg ords = Inl (InitMissing (Init desc))"
    and "admissible desc ords \<Longrightarrow> \<not> init_missing desc \<Longrightarrow> has_empty_name desc \<Longrightarrow>
         compile q desc pkg ords = Inl IndexOutOfRange"
    and "admissible desc ords \<Longrightarrow> \<not> init_missing desc \<Longrightarrow> \<not> has_empty_name desc \<Longrightarrow>
         target_missing desc \<Longrightarrow>
         \<exists>s\<in>set (States desc). \<exists>t\<in>set (Transitions s).
           To t \<noteq> [] \<and> To t \<notin> Name ` set (States desc) \<and>
           compile q desc pkg ords = Inl (TargetMissing (Name s) (To t) (Event t))"
    and "admissible desc ords \<Longrightarrow> \<not> init_missing desc \<Longrightarrow> \<not> has_empty_name desc \<Longrightarrow>
         \<not> target_missing desc \<Longrightarrow> \<exists>text. compile q desc pkg ords = Inr text"
    and "compile q desc pkg ords = Inl e \<Longrightarrow>
         e = InitMissing (Init desc) \<or> e = IndexOutOfRange \<or>
         (\<exists>s t ev. e = TargetMissing s t ev)"
proof -
  let ?sm = "map (\<lambda>s. (Name s, s)) (States desc)"
  from no_duplicate_index [OF nd] obtain em where
    idx: "index_states (States desc) [] [] = Inr (?sm, em)" by blast
  note maps = index_states_maps [OF idx]
  have look: "map_of ?sm n = None \<longleftrightarrow> n \<notin> Name ` set (States desc)" for n
    by (simp add: map_of_eq_None_iff image_image)
  have gen_eq: "generate desc ords =
      (if init_missing desc then Inl (InitMissing (Init desc))
       else
         bindp (gen_consts (map Name (range_states ?sm (ord_StateConsts ords)))) (\<lambda>sconsts.
         bindp (gen_consts (range_events em (ord_EventConsts ords))) (\<lambda>econsts.
         bindp (gen_Event_cases desc ?sm (range_states ?sm (ord_Event ords)))
           (\<lambda>cases.
         Inr \<lparr>SetState_cases =
                gen_SetState_cases desc (range_states ?sm (ord_SetState ords)),
              State_consts = sconsts, Event_consts = econsts, Event_cases = cases\<rparr>))))"
    unfolding generate_def idx by (simp add: look init_missing_def)
  {
    assume "init_missing desc"
    with gen_eq have "generate desc ords = Inl (InitMissing (Init desc))" by simp
    then show "compile q desc pkg ords = Inl (InitMissing (Init desc))"
      by (simp add: compile_Inl_iff)
  }
  {
    fix e assume "compile q desc pkg ords = Inl e"
    then have g: "generate desc ords = Inl e" by (simp add: compile_Inl_iff)
    show "e = InitMissing (Init desc) \<or> e = IndexOutOfRange \<or>
         (\<exists>s t ev. e = TargetMissing s t ev)"
    proof (cases "init_missing desc")
      case True
      with g gen_eq show ?thesis by simp
    next
      case False
      show ?thesis
      proof (cases "gen_consts (map Name (range_states ?sm (ord_StateConsts ords)))")
        case (Inl e')
        with g gen_eq False gen_consts_Inl [OF Inl] show ?thesis by simp
      next
        case sc: (Inr sc)
        show ?thesis
        proof (cases "gen_consts (range_events em (ord_EventConsts ords))")
          case (Inl e')
          with g gen_eq False sc gen_consts_Inl [OF Inl] show ?thesis by simp
        next
          case ec: (Inr ec)
          show ?thesis
          proof (cases "gen_Event_cases desc ?sm (range_states ?sm (ord_Event ords))")
            case (Inl e')
            with g gen_eq False sc ec have "e = e'" by simp
            with gen_Event_cases_Inl [OF Inl] show ?thesis by blast
          next
            case (Inr cs)
            with g gen_eq False sc ec show ?thesis by simp
          qed
        qed
      qed
    qed
  }
  {
    assume adm: "admissible desc ords" and init: "\<not> init_missing desc"
    from nd have d: "distinct (map Name (States desc))"
      by (simp add: has_duplicate_state_def)
    from adm idx have ok: "orders_ok ?sm em ords" by (simp add: admissible_def)
    then have o_sc: "is_order (map Name (States desc)) (ord_StateConsts ords)"
      and o_ev: "is_order (map Name (States desc)) (ord_Event ords)"
      and o_ec: "is_order em (ord_EventConsts ords)"
      by (simp_all add: orders_ok_def comp_def)
    have sc_eq: "map Name (range_states ?sm (ord_StateConsts ords)) = ord_StateConsts ords"
      by (rule range_states_order(1) [OF d o_sc])
    have ec_eq: "range_events em (ord_EventConsts ords) = ord_EventConsts ords"
      by (rule range_events_order [OF o_ec])
    have ev_set: "set (range_states ?sm (ord_Event ords)) = set (States desc)"
      by (rule range_states_order(2) [OF d o_ev])
    have names: "set (ord_StateConsts ords) = Name ` set (States desc)"
      using o_sc by (simp add: is_order_def)
    have events: "set (ord_EventConsts ords) = (\<Union>s\<in>set (States desc). Event ` set (Transitions s))"
      using o_ec maps(4) by (simp add: is_order_def)
    have empty: "has_empty_name desc \<longleftrightarrow>
        [] \<in> set (ord_StateConsts ords) \<or> [] \<in> set (ord_EventConsts ords)"
      unfolding names events by (auto simp: has_empty_name_def list_ex_iff)
    have dangling: "target_missing desc \<longleftrightarrow>
        \<not> (\<forall>s\<in>set (range_states ?sm (ord_Event ords)). \<forall>t\<in>set (Transitions s).
             To t = [] \<or> map_of ?sm (To t) \<noteq> None)"
      unfolding ev_set look by (auto simp: target_missing_def list_ex_iff)
    note r = gen_Event_cases_result [of desc ?sm "range_states ?sm (ord_Event ords)"]
    {
      assume e: "has_empty_name desc"
      have "generate desc ords = Inl IndexOutOfRange"
      proof (cases "gen_consts (ord_StateConsts ords)")
        case (Inl e')
        with gen_consts_Inl [OF Inl] gen_eq init sc_eq show ?thesis by simp
      next
        case (Inr sc)
        then have "[] \<notin> set (ord_StateConsts ords)" by (simp add: gen_consts_Inr_iff)
        with e empty have "[] \<in> set (ord_EventConsts ords)" by simp
        then have "\<not> (\<exists>cs. gen_consts (ord_EventConsts ords) = Inr cs)"
          by (simp add: gen_consts_Inr_iff)
        then obtain e' where l: "gen_consts (ord_EventConsts ords) = Inl e'"
          by (cases "gen_consts (ord_EventConsts ords)") auto
        with gen_consts_Inl [OF l] gen_eq init sc_eq ec_eq Inr show ?thesis by simp
      qed
      then show "compile q desc pkg ords = Inl IndexOutOfRange"
        by (simp add: compile_Inl_iff)
    }
    {
      assume e: "\<not> has_empty_name desc"
      with empty obtain sc ec where
        sc: "gen_consts (ord_StateConsts ords) = Inr sc" and
        ec: "gen_consts (ord_EventConsts ords) = Inr ec"
        by (auto simp: gen_consts_Inr_iff)
      have gen_eq2: "generate desc ords =
         bindp (gen_Event_cases desc ?sm (range_states ?sm (ord_Event ords)))
           (\<lambda>cases.
         Inr \<lparr>SetState_cases =
                gen_SetState_cases desc (range_states ?sm (ord_SetState ords)),
              State_consts = sc, Event_consts = ec, Event_cases = cases\<rparr>)"
        using gen_eq init sc ec sc_eq ec_eq by simp
      {
        assume t: "target_missing desc"
        with dangling r have "\<not> (\<exists>cs. gen_Event_cases desc ?sm
            (range_states ?sm (ord_Event ords)) = Inr cs)" by blast
        then obtain e' where l: "gen_Event_cases desc ?sm
            (range_states ?sm (ord_Event ords)) = Inl e'"
          by (cases "gen_Event_cases desc ?sm (range_states ?sm (ord_Event ords))") auto
        with gen_Event_cases_result [of desc ?sm "range_states ?sm (ord_Event ords)" e']
        obtain s t where "s \<in> set (range_states ?sm (ord_Event ords))"
          "t \<in> set (Transitions s)" "e' = TargetMissing (Name s) (To t) (Event t)"
          "To t \<noteq> []" "map_of ?sm (To t) = None" by blast
        moreover from l gen_eq2 have "compile q desc pkg ords = Inl e'"
          by (simp add: compile_Inl_iff)
        ultimately show "\<exists>s\<in>set (States desc). \<exists>t\<in>set (Transitions s).
           To t \<noteq> [] \<and> To t \<notin> Name ` set (States desc) \<and>
           compile q desc pkg ords = Inl (TargetMissing (Name s) (To t) (Event t))"
          unfolding ev_set look by blast
      }
      {
        assume t: "\<not> target_missing desc"
        with dangling r obtain cs where "gen_Event_cases desc ?sm
            (range_states ?sm (ord_Event ords)) = Inr cs" by blast
        with gen_eq2 have "\<exists>prog. generate desc ords = Inr prog" by simp
        then show "\<exists>text. compile q desc pkg ords = Inr text"
          by (auto simp: compile_generate)
      }
    }
  }
qed

section \<open>The indexing loop on the pointers\<close>

lemma present_simps [simp]:
  "present [] = []"
  "present (None # xs) = present xs"
  "present (Some x # xs) = x # present xs"
  by (simp_all add: present_def map_filter_simps)

lemma present_append [simp]: "present (xs @ ys) = present xs @ present ys"
  by (simp add: present_def map_filter_def)

lemma present_map_Some [simp]: "present (map Some xs) = xs"
  by (induction xs) simp_all

lemma map_Some_present: "None \<notin> set xs \<Longrightarrow> map Some (present xs) = xs"
proof (induction xs)
  case Nil
  show ?case by simp
next
  case (Cons x xs)
  then show ?case by (cases x) simp_all
qed

lemma index_transitions_ptr_Inr_iff:
  "index_transitions_ptr ts tm em = Inr em' \<longleftrightarrow>
     None \<notin> set ts \<and> index_transitions (present ts) tm em = Inr em'"
proof (induction ts arbitrary: tm em)
  case Nil
  show ?case by simp
next
  case (Cons x rest)
  show ?case
  proof (cases x)
    case None
    then show ?thesis by simp
  next
    case (Some t)
    with Cons.IH show ?thesis by simp
  qed
qed

lemma index_transitions_ptr_Inl_any:
  "index_transitions_ptr ts tm em = Inl e \<Longrightarrow> index_transitions_ptr ts tm em2 = Inl e"
proof (induction ts arbitrary: tm em em2)
  case Nil
  then show ?case by simp
next
  case (Cons x rest)
  show ?case
  proof (cases x)
    case None
    with Cons.prems show ?thesis by simp
  next
    case (Some t)
    show ?thesis
    proof (cases "Event t \<in> set tm")
      case True
      with Some Cons.prems show ?thesis by simp
    next
      case False
      with Some Cons.prems have
        "index_transitions_ptr rest (List.insert (Event t) tm) (List.insert (Event t) em) = Inl e"
        by simp
      from Cons.IH [OF this] False Some show ?thesis by simp
    qed
  qed
qed

text \<open>
The first transition at which the indexing loop stops, and why.
\<close>

lemma index_transitions_ptr_Inl:
  "index_transitions_ptr ts tm em = Inl e \<Longrightarrow>
     \<exists>tpre x trest. ts = tpre @ x # trest \<and> None \<notin> set tpre \<and>
       distinct (map Event (present tpre)) \<and> Event ` set (present tpre) \<inter> set tm = {} \<and>
       (x = None \<and> e = NilPointerDereference \<or>
        (\<exists>t. x = Some t \<and> Event t \<in> set tm \<union> Event ` set (present tpre) \<and>
             e = DuplicateEvent (Event t)))"
proof (induction ts arbitrary: tm em)
  case Nil
  then show ?case by simp
next
  case (Cons y rest)
  show ?case
  proof (cases y)
    case None
    with Cons.prems have "e = NilPointerDereference" by simp
    with None have "y # rest = [] @ y # rest \<and> None \<notin> set [] \<and>
       distinct (map Event (present [])) \<and> Event ` set (present []) \<inter> set tm = {} \<and>
       (y = None \<and> e = NilPointerDereference \<or>
        (\<exists>t. y = Some t \<and> Event t \<in> set tm \<union> Event ` set (present []) \<and>
             e = DuplicateEvent (Event t)))" by simp
    then show ?thesis by blast
  next
    case (Some u)
    show ?thesis
    proof (cases "Event u \<in> set tm")
      case True
      with Some Cons.prems have "e = DuplicateEvent (Event u)" by simp
      with Some True have "y # rest = [] @ y # rest \<and> None \<notin> set [] \<and>
         distinct (map Event (present [])) \<and> Event ` set (present []) \<inter> set tm = {} \<and>
         (y = None \<and> e = NilPointerDereference \<or>
          (\<exists>t. y = Some t \<and> Event t \<in> set tm \<union> Event ` set (present []) \<and>
               e = DuplicateEvent (Event t)))" by simp
      then show ?thesis by blast
    next
      case False
      with Some Cons.prems have
        "index_transitions_ptr rest (List.insert (Event u) tm) (List.insert (Event u) em) = Inl e"
        by simp
      from Cons.IH [OF this] obtain tpre x trest where
        r: "rest = tpre @ x # trest" and n: "None \<notin> set tpre" and
        d: "distinct (map Event (present tpre))" and
        i: "Event ` set (present tpre) \<inter> set (List.insert (Event u) tm) = {}" and
        c: "x = None \<and> e = NilPointerDereference \<or>
            (\<exists>t. x = Some t \<and>
               Event t \<in> set (List.insert (Event u) tm) \<union> Event ` set (present tpre) \<and>
               e = DuplicateEvent (Event t))"
        by blast
      from i have u: "Event u \<notin> Event ` set (present tpre)" by auto
      have 1: "y # rest = (y # tpre) @ x # trest" using r by simp
      have 2: "None \<notin> set (y # tpre)" using n Some by simp
      have 3: "distinct (map Event (present (y # tpre)))" using d u Some by simp
      have 4: "Event ` set (present (y # tpre)) \<inter> set tm = {}" using i False Some by auto
      have 5: "x = None \<and> e = NilPointerDereference \<or>
          (\<exists>t. x = Some t \<and> Event t \<in> set tm \<union> Event ` set (present (y # tpre)) \<and>
               e = DuplicateEvent (Event t))"
        using c Some by auto
      from 1 2 3 4 5 show ?thesis by blast
    qed
  qed
qed

lemma index_transitions_ptr_stops:
  assumes "None \<notin> set tpre" and "distinct (map Event (present tpre))"
    and "Event ` set (present tpre) \<inter> set tm = {}"
  shows "index_transitions_ptr (tpre @ None # trest) tm em = Inl NilPointerDereference"
    and "Event t \<in> set tm \<union> Event ` set (present tpre) \<Longrightarrow>
         index_transitions_ptr (tpre @ Some t # trest) tm em = Inl (DuplicateEvent (Event t))"
  using assms
proof (induction tpre arbitrary: tm em)
  case Nil
  {
    case 1
    show ?case by simp
  next
    case 2
    then show ?case by simp
  }
next
  case (Cons y tpre)
  {
    case 1
    then obtain u where y: "y = Some u" by (cases y) auto
    with 1 have u: "Event u \<notin> set tm" by auto
    from 1 y have "None \<notin> set tpre" "distinct (map Event (present tpre))"
      "Event ` set (present tpre) \<inter> set (List.insert (Event u) tm) = {}" by auto
    from Cons.IH(1) [OF this] y u show ?case by simp
  next
    case 2
    then obtain u where y: "y = Some u" by (cases y) auto
    with 2 have u: "Event u \<notin> set tm" by auto
    from 2 y have a: "None \<notin> set tpre" "distinct (map Event (present tpre))"
      "Event ` set (present tpre) \<inter> set (List.insert (Event u) tm) = {}" by auto
    from 2 y have "Event t \<in> set (List.insert (Event u) tm) \<union> Event ` set (present tpre)"
      by auto
    from Cons.IH(2) [OF this a] y u show ?case by simp
  }
qed

lemma clean_transitions_index:
  "clean_transitions ts \<Longrightarrow> \<exists>em'. index_transitions_ptr ts [] em = Inr em'"
proof -
  assume c: "clean_transitions ts"
  then have "distinct (map Event (present ts))" by (simp add: clean_transitions_def)
  then obtain em' where "index_transitions (present ts) [] em = Inr em'"
    using index_transitions_ok [of "present ts" "[]" em] by auto
  with c show ?thesis
    by (auto simp: index_transitions_ptr_Inr_iff clean_transitions_def)
qed

lemma index_transitions_clean:
  "index_transitions_ptr ts [] em = Inr em' \<Longrightarrow> clean_transitions ts"
proof -
  assume "index_transitions_ptr ts [] em = Inr em'"
  then have n: "None \<notin> set ts" and i: "index_transitions (present ts) [] em = Inr em'"
    by (simp_all add: index_transitions_ptr_Inr_iff)
  from index_transitions_Inr [OF i] n show ?thesis by (simp add: clean_transitions_def)
qed

lemma index_transitions_first_error:
  "index_transitions_ptr ts [] [] = Inl (DuplicateEvent ev) \<longleftrightarrow>
     (\<exists>tpre t trest. ts = tpre @ Some t # trest \<and> clean_transitions tpre \<and>
        Event t = ev \<and> ev \<in> Event ` set (present tpre))"
  "index_transitions_ptr ts [] [] = Inl NilPointerDereference \<longleftrightarrow>
     (\<exists>tpre trest. ts = tpre @ None # trest \<and> clean_transitions tpre)"
  "index_transitions_ptr ts [] [] = Inl e \<Longrightarrow>
     (\<exists>ev. e = DuplicateEvent ev) \<or> e = NilPointerDereference"
proof -
  show "index_transitions_ptr ts [] [] = Inl (DuplicateEvent ev) \<longleftrightarrow>
     (\<exists>tpre t trest. ts = tpre @ Some t # trest \<and> clean_transitions tpre \<and>
        Event t = ev \<and> ev \<in> Event ` set (present tpre))"
  proof
    assume "index_transitions_ptr ts [] [] = Inl (DuplicateEvent ev)"
    from index_transitions_ptr_Inl [OF this] obtain tpre x trest t where
      "ts = tpre @ x # trest" "None \<notin> set tpre" "distinct (map Event (present tpre))"
      "x = Some t" "Event t \<in> Event ` set (present tpre)" "ev = Event t"
      by auto
    then have "ts = tpre @ Some t # trest \<and> clean_transitions tpre \<and>
        Event t = ev \<and> ev \<in> Event ` set (present tpre)"
      by (simp add: clean_transitions_def)
    then show "\<exists>tpre t trest. ts = tpre @ Some t # trest \<and> clean_transitions tpre \<and>
        Event t = ev \<and> ev \<in> Event ` set (present tpre)" by blast
  next
    assume "\<exists>tpre t trest. ts = tpre @ Some t # trest \<and> clean_transitions tpre \<and>
        Event t = ev \<and> ev \<in> Event ` set (present tpre)"
    then obtain tpre t trest where ts: "ts = tpre @ Some t # trest"
      and c: "None \<notin> set tpre" "distinct (map Event (present tpre))"
      and ev: "Event t = ev" "Event t \<in> set [] \<union> Event ` set (present tpre)"
      by (auto simp: clean_transitions_def)
    from c have i: "Event ` set (present tpre) \<inter> set [] = {}" by simp
    from index_transitions_ptr_stops(2) [OF c i ev(2)] ts ev(1)
    show "index_transitions_ptr ts [] [] = Inl (DuplicateEvent ev)" by simp
  qed
  show "index_transitions_ptr ts [] [] = Inl NilPointerDereference \<longleftrightarrow>
     (\<exists>tpre trest. ts = tpre @ None # trest \<and> clean_transitions tpre)"
  proof
    assume "index_transitions_ptr ts [] [] = Inl NilPointerDereference"
    from index_transitions_ptr_Inl [OF this] obtain tpre x trest where
      "ts = tpre @ x # trest" "None \<notin> set tpre" "distinct (map Event (present tpre))"
      "x = None"
      by auto
    then have "ts = tpre @ None # trest \<and> clean_transitions tpre"
      by (simp add: clean_transitions_def)
    then show "\<exists>tpre trest. ts = tpre @ None # trest \<and> clean_transitions tpre" by blast
  next
    assume "\<exists>tpre trest. ts = tpre @ None # trest \<and> clean_transitions tpre"
    then obtain tpre trest where ts: "ts = tpre @ None # trest"
      and c: "None \<notin> set tpre" "distinct (map Event (present tpre))"
      by (auto simp: clean_transitions_def)
    from c have i: "Event ` set (present tpre) \<inter> set [] = {}" by simp
    from index_transitions_ptr_stops(1) [OF c i] ts
    show "index_transitions_ptr ts [] [] = Inl NilPointerDereference" by simp
  qed
  assume "index_transitions_ptr ts [] [] = Inl e"
  from index_transitions_ptr_Inl [OF this]
  show "(\<exists>ev. e = DuplicateEvent ev) \<or> e = NilPointerDereference" by auto
qed

text \<open>
The first state at which the indexing loop stops, and why.
\<close>

lemma index_states_ptr_Inr:
  "index_states_ptr sts sm em = Inr r \<Longrightarrow>
     None \<notin> set sts \<and> distinct (map PName (present sts)) \<and>
     PName ` set (present sts) \<inter> fst ` set sm = {} \<and>
     (\<forall>s\<in>set (present sts). clean_transitions (PTransitions s))"
proof (induction sts arbitrary: sm em)
  case Nil
  then show ?case by simp
next
  case (Cons x rest)
  show ?case
  proof (cases x)
    case None
    with Cons.prems show ?thesis by simp
  next
    case (Some s)
    from Cons.prems Some have none: "map_of sm (PName s) = None"
      by (cases "map_of sm (PName s)") simp_all
    with Cons.prems Some obtain em1 where
      tr: "index_transitions_ptr (PTransitions s) [] em = Inr em1" and
      rec: "index_states_ptr rest (sm @ [(PName s, s)]) em1 = Inr r"
      by (auto simp: bindp_eq_Inr)
    from none have notin: "PName s \<notin> fst ` set sm" by (simp add: map_of_eq_None_iff)
    note c = index_transitions_clean [OF tr]
    note ih = Cons.IH [OF rec]
    from ih have "None \<notin> set (x # rest)" using Some by simp
    moreover from ih notin have "distinct (map PName (present (x # rest)))"
      using Some by auto
    moreover from ih notin have "PName ` set (present (x # rest)) \<inter> fst ` set sm = {}"
      using Some by auto
    moreover from ih c have "\<forall>s\<in>set (present (x # rest)). clean_transitions (PTransitions s)"
      using Some by simp
    ultimately show ?thesis by blast
  qed
qed

lemma index_states_ptr_Inl:
  "index_states_ptr sts sm em = Inl e \<Longrightarrow>
     \<exists>pre x rest. sts = pre @ x # rest \<and> None \<notin> set pre \<and>
       distinct (map PName (present pre)) \<and>
       PName ` set (present pre) \<inter> fst ` set sm = {} \<and>
       (\<forall>s\<in>set (present pre). clean_transitions (PTransitions s)) \<and>
       (x = None \<and> e = NilPointerDereference \<or>
        (\<exists>s. x = Some s \<and>
           (PName s \<in> fst ` set sm \<union> PName ` set (present pre) \<and>
              e = DuplicateState (PName s) \<or>
            PName s \<notin> fst ` set sm \<union> PName ` set (present pre) \<and>
              index_transitions_ptr (PTransitions s) [] [] = Inl e)))"
proof (induction sts arbitrary: sm em)
  case Nil
  then show ?case by simp
next
  case (Cons y tl)
  let ?P = "\<lambda>pre x rest sm. y # tl = pre @ x # rest \<and> None \<notin> set pre \<and>
       distinct (map PName (present pre)) \<and>
       PName ` set (present pre) \<inter> fst ` set sm = {} \<and>
       (\<forall>s\<in>set (present pre). clean_transitions (PTransitions s)) \<and>
       (x = None \<and> e = NilPointerDereference \<or>
        (\<exists>s. x = Some s \<and>
           (PName s \<in> fst ` set sm \<union> PName ` set (present pre) \<and>
              e = DuplicateState (PName s) \<or>
            PName s \<notin> fst ` set sm \<union> PName ` set (present pre) \<and>
              index_transitions_ptr (PTransitions s) [] [] = Inl e)))"
  show ?case
  proof (cases y)
    case None
    with Cons.prems have "e = NilPointerDereference" by simp
    with None have "?P [] y tl sm" by simp
    then show ?thesis by blast
  next
    case (Some u)
    show ?thesis
    proof (cases "map_of sm (PName u)")
      case (Some it)
      with \<open>y = Some u\<close> Cons.prems have e: "e = DuplicateState (PName u)" by simp
      from Some have "PName u \<in> fst ` set sm"
        by (metis map_of_eq_None_iff option.distinct(1))
      with e \<open>y = Some u\<close> have "?P [] y tl sm" by simp
      then show ?thesis by blast
    next
      case None
      then have notin: "PName u \<notin> fst ` set sm" by (simp add: map_of_eq_None_iff)
      show ?thesis
      proof (cases "index_transitions_ptr (PTransitions u) [] em")
        case (Inl e')
        with None \<open>y = Some u\<close> Cons.prems have "e = e'" by simp
        with Inl have "index_transitions_ptr (PTransitions u) [] em = Inl e" by simp
        then have "index_transitions_ptr (PTransitions u) [] [] = Inl e"
          by (rule index_transitions_ptr_Inl_any)
        with notin \<open>y = Some u\<close> have "?P [] y tl sm" by simp
        then show ?thesis by blast
      next
        case (Inr em1)
        with None \<open>y = Some u\<close> Cons.prems have
          rec: "index_states_ptr tl (sm @ [(PName u, u)]) em1 = Inl e" by simp
        from Cons.IH [OF rec] obtain pre x rest where
          1: "tl = pre @ x # rest" and 2: "None \<notin> set pre" and
          3: "distinct (map PName (present pre))" and
          4: "PName ` set (present pre) \<inter> fst ` set (sm @ [(PName u, u)]) = {}" and
          5: "\<forall>s\<in>set (present pre). clean_transitions (PTransitions s)" and
          6: "x = None \<and> e = NilPointerDereference \<or>
            (\<exists>s. x = Some s \<and>
               (PName s \<in> fst ` set (sm @ [(PName u, u)]) \<union> PName ` set (present pre) \<and>
                  e = DuplicateState (PName s) \<or>
                PName s \<notin> fst ` set (sm @ [(PName u, u)]) \<union> PName ` set (present pre) \<and>
                  index_transitions_ptr (PTransitions s) [] [] = Inl e))"
          by blast
        note c = index_transitions_clean [OF Inr]
        from 4 have u: "PName u \<notin> PName ` set (present pre)" by auto
        have a: "y # tl = (y # pre) @ x # rest" using 1 by simp
        have b: "None \<notin> set (y # pre)" using 2 \<open>y = Some u\<close> by simp
        have c': "distinct (map PName (present (y # pre)))" using 3 u \<open>y = Some u\<close> by simp
        have d: "PName ` set (present (y # pre)) \<inter> fst ` set sm = {}"
          using 4 notin \<open>y = Some u\<close> by auto
        have f: "\<forall>s\<in>set (present (y # pre)). clean_transitions (PTransitions s)"
          using 5 c \<open>y = Some u\<close> by simp
        have g: "x = None \<and> e = NilPointerDereference \<or>
            (\<exists>s. x = Some s \<and>
               (PName s \<in> fst ` set sm \<union> PName ` set (present (y # pre)) \<and>
                  e = DuplicateState (PName s) \<or>
                PName s \<notin> fst ` set sm \<union> PName ` set (present (y # pre)) \<and>
                  index_transitions_ptr (PTransitions s) [] [] = Inl e))"
          using 6 \<open>y = Some u\<close> by auto
        from a b c' d f g have "?P (y # pre) x rest sm" by blast
        then show ?thesis by blast
      qed
    qed
  qed
qed

lemma index_states_ptr_stops:
  assumes "None \<notin> set pre" and "distinct (map PName (present pre))"
    and "PName ` set (present pre) \<inter> fst ` set sm = {}"
    and "\<forall>s\<in>set (present pre). clean_transitions (PTransitions s)"
  shows "index_states_ptr (pre @ None # rest) sm em = Inl NilPointerDereference"
    and "PName s \<in> fst ` set sm \<union> PName ` set (present pre) \<Longrightarrow>
         index_states_ptr (pre @ Some s # rest) sm em = Inl (DuplicateState (PName s))"
    and "PName s \<notin> fst ` set sm \<union> PName ` set (present pre) \<Longrightarrow>
         index_transitions_ptr (PTransitions s) [] [] = Inl e \<Longrightarrow>
         index_states_ptr (pre @ Some s # rest) sm em = Inl e"
  using assms
proof (induction pre arbitrary: sm em)
  case Nil
  {
    case 1
    show ?case by simp
  next
    case 2
    then have "map_of sm (PName s) \<noteq> None" by (simp add: map_of_eq_None_iff)
    then show ?case by auto
  next
    case 3
    then have "map_of sm (PName s) = None" by (simp add: map_of_eq_None_iff)
    moreover from 3(2) have "index_transitions_ptr (PTransitions s) [] em = Inl e"
      by (rule index_transitions_ptr_Inl_any)
    ultimately show ?case by simp
  }
next
  case (Cons y pre)
  have step: "index_states_ptr ((y # pre) @ x # rest) sm em =
      index_states_ptr (pre @ x # rest) (sm @ [(PName u, u)]) em1 \<and>
      None \<notin> set pre \<and> distinct (map PName (present pre)) \<and>
      PName ` set (present pre) \<inter> fst ` set (sm @ [(PName u, u)]) = {} \<and>
      (\<forall>s\<in>set (present pre). clean_transitions (PTransitions s)) \<and>
      fst ` set (sm @ [(PName u, u)]) \<union> PName ` set (present pre) =
        fst ` set sm \<union> PName ` set (present (y # pre))"
    if y: "y = Some u" and em1: "index_transitions_ptr (PTransitions u) [] em = Inr em1"
      and p: "None \<notin> set (y # pre)" "distinct (map PName (present (y # pre)))"
        "PName ` set (present (y # pre)) \<inter> fst ` set sm = {}"
        "\<forall>s\<in>set (present (y # pre)). clean_transitions (PTransitions s)"
    for x u em1 sm em
  proof -
    from p(3) y have "map_of sm (PName u) = None" by (auto simp: map_of_eq_None_iff)
    with y em1 have "index_states_ptr ((y # pre) @ x # rest) sm em =
      index_states_ptr (pre @ x # rest) (sm @ [(PName u, u)]) em1" by simp
    moreover from p y have "None \<notin> set pre" "distinct (map PName (present pre))"
      "PName ` set (present pre) \<inter> fst ` set (sm @ [(PName u, u)]) = {}"
      "\<forall>s\<in>set (present pre). clean_transitions (PTransitions s)" by auto
    moreover from y have "fst ` set (sm @ [(PName u, u)]) \<union> PName ` set (present pre) =
        fst ` set sm \<union> PName ` set (present (y # pre))" by auto
    ultimately show ?thesis by blast
  qed
  {
    case 1
    then obtain u where y: "y = Some u" by (cases y) auto
    with 1 have "clean_transitions (PTransitions u)" by simp
    then obtain em1 where em1: "index_transitions_ptr (PTransitions u) [] em = Inr em1"
      using clean_transitions_index by blast
    note s = step [OF y em1 1]
    from s Cons.IH(1) [of "sm @ [(PName u, u)]" em1] show ?case by metis
  next
    case 2
    then obtain u where y: "y = Some u" by (cases y) auto
    with 2 have "clean_transitions (PTransitions u)" by simp
    then obtain em1 where em1: "index_transitions_ptr (PTransitions u) [] em = Inr em1"
      using clean_transitions_index by blast
    note s = step [OF y em1 2(2-5)]
    from s 2(1) have "PName s \<in> fst ` set (sm @ [(PName u, u)]) \<union> PName ` set (present pre)"
      by blast
    from Cons.IH(2) [OF this] s show ?case by metis
  next
    case 3
    then obtain u where y: "y = Some u" by (cases y) auto
    with 3 have "clean_transitions (PTransitions u)" by simp
    then obtain em1 where em1: "index_transitions_ptr (PTransitions u) [] em = Inr em1"
      using clean_transitions_index by blast
    note s = step [OF y em1 3(3-6)]
    from s 3(1) have "PName s \<notin> fst ` set (sm @ [(PName u, u)]) \<union> PName ` set (present pre)"
      by blast
    from Cons.IH(3) [OF this 3(2)] s show ?case by metis
  }
qed

lemma clean_states_index:
  "clean_states sts \<longleftrightarrow> (\<exists>r. index_states_ptr sts [] [] = Inr r)"
proof
  assume "\<exists>r. index_states_ptr sts [] [] = Inr r"
  then obtain r where "index_states_ptr sts [] [] = Inr r" by blast
  from index_states_ptr_Inr [OF this] show "clean_states sts"
    by (simp add: clean_states_def list_all_iff)
next
  assume c: "clean_states sts"
  show "\<exists>r. index_states_ptr sts [] [] = Inr r"
  proof (cases "index_states_ptr sts [] []")
    case (Inr r)
    then show ?thesis by blast
  next
    case (Inl e)
    from index_states_ptr_Inl [OF Inl] obtain pre x rest where
      sts: "sts = pre @ x # rest" and
      x: "x = None \<or> (\<exists>s. x = Some s \<and>
           (PName s \<in> PName ` set (present pre) \<or>
            index_transitions_ptr (PTransitions s) [] [] = Inl e))"
      by auto
    from c sts have n: "x \<noteq> None" by (auto simp: clean_states_def)
    with x obtain s where s: "x = Some s"
      and d: "PName s \<in> PName ` set (present pre) \<or>
            index_transitions_ptr (PTransitions s) [] [] = Inl e" by blast
    from c sts s have "PName s \<notin> PName ` set (present pre)"
      by (auto simp: clean_states_def)
    moreover from c sts s have "clean_transitions (PTransitions s)"
      by (simp add: clean_states_def)
    then have "\<exists>em'. index_transitions_ptr (PTransitions s) [] [] = Inr em'"
      by (rule clean_transitions_index)
    ultimately show ?thesis using d by auto
  qed
qed

lemma clean_states_parts:
  "clean_states pre \<longleftrightarrow>
     None \<notin> set pre \<and> distinct (map PName (present pre)) \<and>
     PName ` set (present pre) \<inter> fst ` set ([] :: (string \<times> PState) list) = {} \<and>
     (\<forall>s\<in>set (present pre). clean_transitions (PTransitions s))"
  by (simp add: clean_states_def list_all_iff)

lemma index_states_first_error:
  "index_states_ptr sts [] [] = Inl (DuplicateState n) \<longleftrightarrow>
     (\<exists>pre s rest. sts = pre @ Some s # rest \<and> clean_states pre \<and>
        PName s = n \<and> n \<in> PName ` set (present pre))"
  "index_states_ptr sts [] [] = Inl (DuplicateEvent ev) \<longleftrightarrow>
     (\<exists>pre s rest tpre t trest. sts = pre @ Some s # rest \<and> clean_states pre \<and>
        PName s \<notin> PName ` set (present pre) \<and>
        PTransitions s = tpre @ Some t # trest \<and> clean_transitions tpre \<and>
        Event t = ev \<and> ev \<in> Event ` set (present tpre))"
  "index_states_ptr sts [] [] = Inl NilPointerDereference \<longleftrightarrow>
     (\<exists>pre rest. sts = pre @ None # rest \<and> clean_states pre) \<or>
     (\<exists>pre s rest tpre trest. sts = pre @ Some s # rest \<and> clean_states pre \<and>
        PName s \<notin> PName ` set (present pre) \<and>
        PTransitions s = tpre @ None # trest \<and> clean_transitions tpre)"
  "index_states_ptr sts [] [] = Inl e \<Longrightarrow>
     (\<exists>n. e = DuplicateState n) \<or> (\<exists>ev. e = DuplicateEvent ev) \<or> e = NilPointerDereference"
proof -
  have fwd: "\<exists>pre x rest. sts = pre @ x # rest \<and> clean_states pre \<and>
       (x = None \<and> e = NilPointerDereference \<or>
        (\<exists>s. x = Some s \<and>
           (PName s \<in> PName ` set (present pre) \<and> e = DuplicateState (PName s) \<or>
            PName s \<notin> PName ` set (present pre) \<and>
              index_transitions_ptr (PTransitions s) [] [] = Inl e)))"
    if "index_states_ptr sts [] [] = Inl e" for e
    using index_states_ptr_Inl [OF that] unfolding clean_states_parts by simp
  have bwd: "index_states_ptr (pre @ None # rest) [] [] = Inl NilPointerDereference"
    "PName s \<in> PName ` set (present pre) \<Longrightarrow>
       index_states_ptr (pre @ Some s # rest) [] [] = Inl (DuplicateState (PName s))"
    "PName s \<notin> PName ` set (present pre) \<Longrightarrow>
       index_transitions_ptr (PTransitions s) [] [] = Inl e \<Longrightarrow>
       index_states_ptr (pre @ Some s # rest) [] [] = Inl e"
    if "clean_states pre" for pre rest s e
  proof -
    from that have c: "None \<notin> set pre" "distinct (map PName (present pre))"
      "PName ` set (present pre) \<inter> fst ` set ([] :: (string \<times> PState) list) = {}"
      "\<forall>s\<in>set (present pre). clean_transitions (PTransitions s)"
      unfolding clean_states_parts by simp_all
    show "index_states_ptr (pre @ None # rest) [] [] = Inl NilPointerDereference"
      by (rule index_states_ptr_stops(1) [OF c])
    show "PName s \<in> PName ` set (present pre) \<Longrightarrow>
       index_states_ptr (pre @ Some s # rest) [] [] = Inl (DuplicateState (PName s))"
      using index_states_ptr_stops(2) [OF c, of s rest "[]"] by simp
    show "PName s \<notin> PName ` set (present pre) \<Longrightarrow>
       index_transitions_ptr (PTransitions s) [] [] = Inl e \<Longrightarrow>
       index_states_ptr (pre @ Some s # rest) [] [] = Inl e"
      using index_states_ptr_stops(3) [OF c, of s e rest "[]"] by simp
  qed
  show "index_states_ptr sts [] [] = Inl (DuplicateState n) \<longleftrightarrow>
     (\<exists>pre s rest. sts = pre @ Some s # rest \<and> clean_states pre \<and>
        PName s = n \<and> n \<in> PName ` set (present pre))"
  proof
    assume a: "index_states_ptr sts [] [] = Inl (DuplicateState n)"
    from fwd [OF a] obtain pre x rest where sts: "sts = pre @ x # rest"
      and c: "clean_states pre"
      and x: "\<exists>s. x = Some s \<and>
           (PName s \<in> PName ` set (present pre) \<and> DuplicateState n = DuplicateState (PName s) \<or>
            PName s \<notin> PName ` set (present pre) \<and>
              index_transitions_ptr (PTransitions s) [] [] = Inl (DuplicateState n))"
      by auto
    then obtain s where s: "x = Some s" and
      alt: "PName s \<in> PName ` set (present pre) \<and> n = PName s \<or>
            index_transitions_ptr (PTransitions s) [] [] = Inl (DuplicateState n)" by auto
    from index_transitions_first_error(3) [of "PTransitions s" "DuplicateState n"]
    have "index_transitions_ptr (PTransitions s) [] [] \<noteq> Inl (DuplicateState n)" by auto
    with alt have "PName s \<in> PName ` set (present pre)" "n = PName s" by simp_all
    with sts c s have "sts = pre @ Some s # rest \<and> clean_states pre \<and>
        PName s = n \<and> n \<in> PName ` set (present pre)" by simp
    then show "\<exists>pre s rest. sts = pre @ Some s # rest \<and> clean_states pre \<and>
        PName s = n \<and> n \<in> PName ` set (present pre)" by blast
  next
    assume "\<exists>pre s rest. sts = pre @ Some s # rest \<and> clean_states pre \<and>
        PName s = n \<and> n \<in> PName ` set (present pre)"
    then obtain pre s rest where "sts = pre @ Some s # rest" "clean_states pre"
      "PName s = n" "PName s \<in> PName ` set (present pre)" by auto
    with bwd(2) [of pre s rest] show "index_states_ptr sts [] [] = Inl (DuplicateState n)"
      by simp
  qed
  show "index_states_ptr sts [] [] = Inl (DuplicateEvent ev) \<longleftrightarrow>
     (\<exists>pre s rest tpre t trest. sts = pre @ Some s # rest \<and> clean_states pre \<and>
        PName s \<notin> PName ` set (present pre) \<and>
        PTransitions s = tpre @ Some t # trest \<and> clean_transitions tpre \<and>
        Event t = ev \<and> ev \<in> Event ` set (present tpre))"
  proof
    assume a: "index_states_ptr sts [] [] = Inl (DuplicateEvent ev)"
    from fwd [OF a] obtain pre x rest s where sts: "sts = pre @ x # rest"
      and c: "clean_states pre" and s: "x = Some s"
      and n: "PName s \<notin> PName ` set (present pre)"
      and t: "index_transitions_ptr (PTransitions s) [] [] = Inl (DuplicateEvent ev)"
      by auto
    from t obtain tpre t trest where "PTransitions s = tpre @ Some t # trest"
      "clean_transitions tpre" "Event t = ev" "ev \<in> Event ` set (present tpre)"
      unfolding index_transitions_first_error(1) by blast
    with sts c s n have "sts = pre @ Some s # rest \<and> clean_states pre \<and>
        PName s \<notin> PName ` set (present pre) \<and>
        PTransitions s = tpre @ Some t # trest \<and> clean_transitions tpre \<and>
        Event t = ev \<and> ev \<in> Event ` set (present tpre)" by simp
    then show "\<exists>pre s rest tpre t trest. sts = pre @ Some s # rest \<and> clean_states pre \<and>
        PName s \<notin> PName ` set (present pre) \<and>
        PTransitions s = tpre @ Some t # trest \<and> clean_transitions tpre \<and>
        Event t = ev \<and> ev \<in> Event ` set (present tpre)" by blast
  next
    assume "\<exists>pre s rest tpre t trest. sts = pre @ Some s # rest \<and> clean_states pre \<and>
        PName s \<notin> PName ` set (present pre) \<and>
        PTransitions s = tpre @ Some t # trest \<and> clean_transitions tpre \<and>
        Event t = ev \<and> ev \<in> Event ` set (present tpre)"
    then obtain pre s rest tpre t trest where sts: "sts = pre @ Some s # rest"
      and c: "clean_states pre" and n: "PName s \<notin> PName ` set (present pre)"
      and t: "PTransitions s = tpre @ Some t # trest \<and> clean_transitions tpre \<and>
        Event t = ev \<and> ev \<in> Event ` set (present tpre)" by blast
    from t have "index_transitions_ptr (PTransitions s) [] [] = Inl (DuplicateEvent ev)"
      unfolding index_transitions_first_error(1) by blast
    from bwd(3) [OF c n this] sts
    show "index_states_ptr sts [] [] = Inl (DuplicateEvent ev)" by simp
  qed
  show "index_states_ptr sts [] [] = Inl NilPointerDereference \<longleftrightarrow>
     (\<exists>pre rest. sts = pre @ None # rest \<and> clean_states pre) \<or>
     (\<exists>pre s rest tpre trest. sts = pre @ Some s # rest \<and> clean_states pre \<and>
        PName s \<notin> PName ` set (present pre) \<and>
        PTransitions s = tpre @ None # trest \<and> clean_transitions tpre)"
  proof
    assume a: "index_states_ptr sts [] [] = Inl NilPointerDereference"
    from fwd [OF a] obtain pre x rest where sts: "sts = pre @ x # rest"
      and c: "clean_states pre"
      and x: "x = None \<or>
        (\<exists>s. x = Some s \<and> PName s \<notin> PName ` set (present pre) \<and>
              index_transitions_ptr (PTransitions s) [] [] = Inl NilPointerDereference)"
      by auto
    show "(\<exists>pre rest. sts = pre @ None # rest \<and> clean_states pre) \<or>
     (\<exists>pre s rest tpre trest. sts = pre @ Some s # rest \<and> clean_states pre \<and>
        PName s \<notin> PName ` set (present pre) \<and>
        PTransitions s = tpre @ None # trest \<and> clean_transitions tpre)"
    proof (cases x)
      case None
      with sts c show ?thesis by blast
    next
      case (Some s)
      with x have n: "PName s \<notin> PName ` set (present pre)"
        and t: "index_transitions_ptr (PTransitions s) [] [] = Inl NilPointerDereference"
        by simp_all
      from t obtain tpre trest where "PTransitions s = tpre @ None # trest"
        "clean_transitions tpre"
        unfolding index_transitions_first_error(2) by blast
      with sts c Some n have "sts = pre @ Some s # rest \<and> clean_states pre \<and>
        PName s \<notin> PName ` set (present pre) \<and>
        PTransitions s = tpre @ None # trest \<and> clean_transitions tpre" by simp
      then show ?thesis by blast
    qed
  next
    assume "(\<exists>pre rest. sts = pre @ None # rest \<and> clean_states pre) \<or>
     (\<exists>pre s rest tpre trest. sts = pre @ Some s # rest \<and> clean_states pre \<and>
        PName s \<notin> PName ` set (present pre) \<and>
        PTransitions s = tpre @ None # trest \<and> clean_transitions tpre)"
    then show "index_states_ptr sts [] [] = Inl NilPointerDereference"
    proof
      assume "\<exists>pre rest. sts = pre @ None # rest \<and> clean_states pre"
      then obtain pre rest where "sts = pre @ None # rest" "clean_states pre" by blast
      with bwd(1) [of pre rest] show ?thesis by simp
    next
      assume "\<exists>pre s rest tpre trest. sts = pre @ Some s # rest \<and> clean_states pre \<and>
        PName s \<notin> PName ` set (present pre) \<and>
        PTransitions s = tpre @ None # trest \<and> clean_transitions tpre"
      then obtain pre s rest tpre trest where sts: "sts = pre @ Some s # rest"
        and c: "clean_states pre" and n: "PName s \<notin> PName ` set (present pre)"
        and t: "PTransitions s = tpre @ None # trest \<and> clean_transitions tpre" by blast
      from t have "index_transitions_ptr (PTransitions s) [] [] = Inl NilPointerDereference"
        unfolding index_transitions_first_error(2) by blast
      from bwd(3) [OF c n this] sts show ?thesis by simp
    qed
  qed
  assume a: "index_states_ptr sts [] [] = Inl e"
  from fwd [OF a] obtain pre x rest where
    "sts = pre @ x # rest" and "clean_states pre" and
    x: "x = None \<and> e = NilPointerDereference \<or>
        (\<exists>s. x = Some s \<and>
           (PName s \<in> PName ` set (present pre) \<and> e = DuplicateState (PName s) \<or>
            PName s \<notin> PName ` set (present pre) \<and>
              index_transitions_ptr (PTransitions s) [] [] = Inl e))"
    by (elim exE conjE)
  show "(\<exists>n. e = DuplicateState n) \<or> (\<exists>ev. e = DuplicateEvent ev) \<or> e = NilPointerDereference"
  proof (cases x)
    case None
    with x show ?thesis by simp
  next
    case (Some s)
    with x have "e = DuplicateState (PName s) \<or>
        index_transitions_ptr (PTransitions s) [] [] = Inl e" by blast
    then show ?thesis
    proof
      assume "e = DuplicateState (PName s)"
      then show ?thesis by simp
    next
      assume "index_transitions_ptr (PTransitions s) [] [] = Inl e"
      from index_transitions_first_error(3) [OF this] show ?thesis by simp
    qed
  qed
qed

text \<open>
  After the indexing loop \<open>compile_ptr\<close> is \<open>compile\<close> on the pointees, and on a
  description without nil pointers the two are the same function.
\<close>

lemma pointee_State_simps [simp]:
  "Name (pointee_State s) = PName s"
  "On (pointee_State s) = POn s"
  "Transitions (pointee_State s) = present (PTransitions s)"
  by (simp_all add: pointee_State_def)

lemma pointees_simps [simp]:
  "States (pointees d) = map pointee_State (present (PStates d))"
  "Init (pointees d) = PInit d"
  by (simp_all add: pointees_def)

lemma pointees_ptrs: "pointees (ptrs desc) = desc"
proof -
  have "pointee_State (ptr_State s) = s" for s
    by (simp add: pointee_State_def ptr_State_def)
  then have "map pointee_State (present (map (\<lambda>s. Some (ptr_State s)) (States desc))) = States desc"
    by (induction "States desc" arbitrary: desc) (simp_all add: map_idI comp_def present_def map_filter_def)
  then show ?thesis by (simp add: pointees_def ptrs_def)
qed

lemma clean_states_pointees:
  assumes "clean_states (PStates d)"
  shows "\<not> has_duplicate_state (pointees d)" and "\<not> has_duplicate_event (pointees d)"
proof -
  from assms have d: "distinct (map PName (present (PStates d)))"
    and t: "\<forall>s\<in>set (present (PStates d)). distinct (map Event (present (PTransitions s)))"
    by (simp_all add: clean_states_def clean_transitions_def list_all_iff)
  from d show "\<not> has_duplicate_state (pointees d)"
    by (simp add: has_duplicate_state_def comp_def)
  from t show "\<not> has_duplicate_event (pointees d)"
    by (simp add: has_duplicate_event_def list_ex_iff)
qed

lemma compile_ptr_index:
  "index_states_ptr (PStates d) [] [] = Inl e \<Longrightarrow> compile_ptr q (Some d) pkg ords = Inl e"
  "clean_states (PStates d) \<Longrightarrow> compile_ptr q (Some d) pkg ords = compile q (pointees d) pkg ords"
proof -
  show "index_states_ptr (PStates d) [] [] = Inl e \<Longrightarrow> compile_ptr q (Some d) pkg ords = Inl e"
    by (simp add: compile_ptr_def)
  assume "clean_states (PStates d)"
  then obtain r where "index_states_ptr (PStates d) [] [] = Inr r"
    unfolding clean_states_index by blast
  then show "compile_ptr q (Some d) pkg ords = compile q (pointees d) pkg ords"
    by (simp add: compile_ptr_def)
qed

lemma compile_ptr_Inl_index:
  assumes "compile_ptr q (Some d) pkg ords = Inl e"
    and "(\<exists>n. e = DuplicateState n) \<or> (\<exists>ev. e = DuplicateEvent ev) \<or> e = NilPointerDereference"
  shows "index_states_ptr (PStates d) [] [] = Inl e"
proof (cases "index_states_ptr (PStates d) [] []")
  case (Inl e')
  with assms(1) show ?thesis by (simp add: compile_ptr_def)
next
  case (Inr r)
  then have c: "clean_states (PStates d)" unfolding clean_states_index by blast
  with assms(1) have "compile q (pointees d) pkg ords = Inl e"
    by (simp add: compile_ptr_index(2))
  from compile_after_index(5) [OF clean_states_pointees [OF c] this] assms(2)
  show ?thesis by auto
qed

lemma index_transitions_ptr_Some:
  "index_transitions_ptr (map Some ts) tm em = index_transitions ts tm em"
  by (induction ts arbitrary: tm em) simp_all

lemma index_states_ptr_Some:
  assumes "map fst sm' = map fst sm"
  shows "index_states_ptr (map (\<lambda>s. Some (ptr_State s)) sts) sm' em = Inl e \<longleftrightarrow>
         index_states sts sm em = Inl e"
  using assms
proof (induction sts arbitrary: sm sm' em)
  case Nil
  show ?case by simp
next
  case (Cons s rest)
  have keys: "fst ` set sm' = fst ` set sm"
    using Cons.prems by (metis set_map)
  have n: "PName (ptr_State s) = Name s" and t: "PTransitions (ptr_State s) = map Some (Transitions s)"
    by (simp_all add: ptr_State_def)
  show ?case
  proof (cases "Name s \<in> fst ` set sm")
    case True
    then obtain a where a: "map_of sm (Name s) = Some a"
      by (metis map_of_eq_None_iff not_Some_eq)
    from True keys obtain b where b: "map_of sm' (Name s) = Some b"
      by (metis map_of_eq_None_iff not_Some_eq)
    from a b show ?thesis by (simp add: n)
  next
    case False
    then have a: "map_of sm (Name s) = None" by (simp add: map_of_eq_None_iff)
    from False keys have b: "map_of sm' (Name s) = None" by (simp add: map_of_eq_None_iff)
    show ?thesis
    proof (cases "index_transitions (Transitions s) [] em")
      case (Inl e')
      with a b show ?thesis by (simp add: n t index_transitions_ptr_Some)
    next
      case (Inr em1)
      have "map fst (sm' @ [(Name s, ptr_State s)]) = map fst (sm @ [(Name s, s)])"
        using Cons.prems by simp
      from Cons.IH [OF this, of em1] Inr a b show ?thesis
        by (simp add: n t index_transitions_ptr_Some)
    qed
  qed
qed

lemma compile_ptr_ptrs: "compile_ptr q (Some (ptrs desc)) pkg ords = compile q desc pkg ords"
proof -
  have st: "PStates (ptrs desc) = map (\<lambda>s. Some (ptr_State s)) (States desc)"
    by (simp add: ptrs_def)
  have same: "index_states_ptr (PStates (ptrs desc)) [] [] = Inl e \<longleftrightarrow>
      index_states (States desc) [] [] = Inl e" for e
    unfolding st by (rule index_states_ptr_Some) simp
  show ?thesis
  proof (cases "index_states (States desc) [] []")
    case (Inl e)
    with same [of e] show ?thesis by (simp add: compile_ptr_def compile_def)
  next
    case (Inr r)
    have "\<exists>r'. index_states_ptr (PStates (ptrs desc)) [] [] = Inr r'"
    proof (cases "index_states_ptr (PStates (ptrs desc)) [] []")
      case (Inl e)
      with same [of e] Inr show ?thesis by simp
    next
      case (Inr r')
      then show ?thesis by blast
    qed
    then obtain r' where "index_states_ptr (PStates (ptrs desc)) [] [] = Inr r'" by blast
    then show ?thesis by (simp add: compile_ptr_def pointees_ptrs)
  qed
qed

section \<open>The field \<open>Package\<close> and the order of the maps\<close>

lemma ifaceStr_Package: "ifaceStr (desc\<lparr>Package := p\<rparr>) = ifaceStr desc"
  by (simp add: ifaceStr_def)

lemma gen_Package [simp]:
  "gen_target (desc\<lparr>Package := p\<rparr>) sm st t = gen_target desc sm st t"
  "gen_transition (desc\<lparr>Package := p\<rparr>) sm st t = gen_transition desc sm st t"
  "gen_SetState_cases (desc\<lparr>Package := p\<rparr>) sts = gen_SetState_cases desc sts"
  unfolding gen_target_def gen_transition_def gen_SetState_cases_def ifaceStr_Package
  by (rule refl)+

lemma gen_transitions_Package [simp]:
  "gen_transitions (desc\<lparr>Package := p\<rparr>) sm st ts = gen_transitions desc sm st ts"
  by (induction ts) simp_all

lemma gen_Event_cases_Package [simp]:
  "gen_Event_cases (desc\<lparr>Package := p\<rparr>) sm sts = gen_Event_cases desc sm sts"
  by (induction sts) (simp_all add: gen_Event_case_def)

lemma generate_Package: "generate (desc\<lparr>Package := p\<rparr>) ords = generate desc ords"
  unfolding generate_def gen_Event_cases_Package gen_Package by (simp cong: if_cong)

lemma render_program_Package:
  "render_program q (desc\<lparr>Package := p\<rparr>) pkg prog = render_program q desc pkg prog"
  by (simp add: render_program_def emit_header_def emit_SetIface_def emit_SetState_open_def
      emit_Event_open_def emit_New_def)

lemma generate_permuted:
  assumes adm1: "admissible desc ords1" and adm2: "admissible desc ords2"
    and gen: "generate desc ords1 = Inr prog1"
  shows "\<exists>prog2. generate desc ords2 = Inr prog2 \<and>
           mset (SetState_cases prog1) = mset (SetState_cases prog2) \<and>
           mset (State_consts prog1) = mset (State_consts prog2) \<and>
           mset (Event_consts prog1) = mset (Event_consts prog2) \<and>
           mset (Event_cases prog1) = mset (Event_cases prog2)"
proof -
  let ?sm = "map (\<lambda>s. (Name s, s)) (States desc)"
  let ?f = "\<lambda>k. (ToUpper_byte (hd k) @ tl k, k)"
  let ?c = "\<lambda>s. projr (gen_Event_case desc ?sm s)"
  from generate_Inr [OF gen] obtain em where
    idx: "index_states (States desc) [] [] = Inr (?sm, em)" and
    init: "Init desc \<in> Name ` set (States desc)" and
    ev1: "gen_Event_cases desc ?sm (range_states ?sm (ord_Event ords1)) = Inr (Event_cases prog1)"
      and
    ss1: "SetState_cases prog1 = gen_SetState_cases desc (range_states ?sm (ord_SetState ords1))"
    by blast
  note d = generate_distinct [OF gen]
  note g1 = generate_consts [OF gen adm1]
  from adm1 idx have ok1: "orders_ok ?sm em ords1" by (simp add: admissible_def)
  from adm2 idx have ok2: "orders_ok ?sm em ords2" by (simp add: admissible_def)
  from ok1 have o1: "is_order (map Name (States desc)) (ord_SetState ords1)"
    "is_order (map Name (States desc)) (ord_StateConsts ords1)"
    "is_order (map Name (States desc)) (ord_Event ords1)"
    "is_order em (ord_EventConsts ords1)"
    by (simp_all add: orders_ok_def comp_def)
  from ok2 have o2: "is_order (map Name (States desc)) (ord_SetState ords2)"
    "is_order (map Name (States desc)) (ord_StateConsts ords2)"
    "is_order (map Name (States desc)) (ord_Event ords2)"
    "is_order em (ord_EventConsts ords2)"
    by (simp_all add: orders_ok_def comp_def)
  \<comment> \<open>the constants\<close>
  from g1(7) o1(2) o2(2) have ne_s: "[] \<notin> set (ord_StateConsts ords2)"
    by (simp add: is_order_def)
  from g1(8) o1(4) o2(4) have ne_e: "[] \<notin> set (ord_EventConsts ords2)"
    by (simp add: is_order_def)
  have sc2: "gen_consts (map Name (range_states ?sm (ord_StateConsts ords2)))
      = Inr (map ?f (ord_StateConsts ords2))"
    using ne_s range_states_order(1) [OF d(1) o2(2)] by (simp add: gen_consts_Inr_iff)
  have ec2: "gen_consts (range_events em (ord_EventConsts ords2))
      = Inr (map ?f (ord_EventConsts ords2))"
    using ne_e range_events_order [OF o2(4)] by (simp add: gen_consts_Inr_iff)
  \<comment> \<open>the cases of \<open>Event\<close>\<close>
  from ev1 have all1: "\<forall>s\<in>set (range_states ?sm (ord_Event ords1)).
      \<exists>c. gen_Event_case desc ?sm s = Inr c"
    and cs1: "Event_cases prog1 = map ?c (range_states ?sm (ord_Event ords1))"
    by (simp_all add: gen_Event_cases_map)
  from all1 range_states_order(2) [OF d(1) o1(3)] range_states_order(2) [OF d(1) o2(3)]
  have "\<forall>s\<in>set (range_states ?sm (ord_Event ords2)). \<exists>c. gen_Event_case desc ?sm s = Inr c"
    by simp
  then have ev2: "gen_Event_cases desc ?sm (range_states ?sm (ord_Event ords2))
      = Inr (map ?c (range_states ?sm (ord_Event ords2)))"
    by (simp add: gen_Event_cases_map)
  from init have init': "(map_of ?sm (Init desc) = None) = False"
    by (simp add: map_of_eq_None_iff image_image)
  let ?prog2 = "\<lparr>SetState_cases =
        gen_SetState_cases desc (range_states ?sm (ord_SetState ords2)),
      State_consts = map ?f (ord_StateConsts ords2),
      Event_consts = map ?f (ord_EventConsts ords2),
      Event_cases = map ?c (range_states ?sm (ord_Event ords2))\<rparr>"
  have gen2: "generate desc ords2 = Inr ?prog2"
    unfolding generate_def idx by (simp add: init' sc2 ec2 ev2)
  have "mset (filter (\<lambda>s. On s \<noteq> []) (range_states ?sm (ord_SetState ords1))) =
      mset (filter (\<lambda>s. On s \<noteq> []) (range_states ?sm (ord_SetState ords2)))"
    unfolding mset_filter range_states_mset [OF d(1) o1(1) o2(1)] ..
  then have m1: "mset (SetState_cases prog1) = mset (SetState_cases ?prog2)"
    by (simp add: ss1 gen_SetState_cases_def)
  have m2: "mset (State_consts prog1) = mset (State_consts ?prog2)"
    using order_mset [OF o1(2) o2(2)] by (simp add: g1(1))
  have m3: "mset (Event_consts prog1) = mset (Event_consts ?prog2)"
    using order_mset [OF o1(4) o2(4)] by (simp add: g1(2))
  have m4: "mset (Event_cases prog1) = mset (Event_cases ?prog2)"
    using range_states_mset [OF d(1) o1(3) o2(3)] by (simp add: cs1)
  show ?thesis
    by (intro exI [of _ ?prog2] conjI) (fact gen2 m1 m2 m3 m4)+
qed

section \<open>The concrete descriptions, evaluated\<close>

lemma example_generate: "generate example_desc example_orders = Inr example_program"
  by code_simp

lemma example_admissible: "admissible example_desc example_orders"
  by code_simp

section \<open>The generated \<open>Event\<close> routine\<close>

text \<open>
  In the four theorems on \<open>Event\<close>, a valid description is one for which \<open>generate\<close>
  returns a program (by \<open>compile_generate\<close>, one for which \<open>compile\<close> returns its text),
  with the maps ranged over in admissible orders. A matched transition is a transition
  \<open>tr\<close> of the state \<open>source\<close> the machine is in, dispatched with its event. \<open>m1\<close> is the
  machine after the condition of the transition (\<open>m\<close> itself when there is none) and
  \<open>m2\<close> the machine after its action.
\<close>



text \<open>
  C2. For every valid description, when the condition of a matched transition returns
  false without an error, \<open>Event\<close> returns no error; when it returns an error, \<open>Event\<close>
  returns that error. In both cases the state is unchanged and the condition is the only
  callback that was called: no action and no entry action ran.
\<close>

theorem Event_condition_false_or_error:
  assumes gen: "generate desc ords = Inr prog" and adm: "admissible desc ords"
    and src: "source \<in> set (States desc)" and cur: "state m = Name source"
    and tr: "tr \<in> set (Transitions source)"
    and c: "Condition tr \<noteq> []"
    and call: "call_condition cb (Condition tr) (Event tr) m = ((ok, err), m1)"
    and no: "err \<noteq> None \<or> \<not> ok"
  shows "run_Event cb prog (Event tr) m = (map_option CallbackError err, m1) \<and>
         state m1 = state m \<and>
         calls m1 = calls m @ [(Condition tr, Event tr, state m)]"
proof -
  let ?sm = "map (\<lambda>s. (Name s, s)) (States desc)"
  from run_Event_matched [OF gen adm src cur tr] obtain body where
    body: "gen_transition desc ?sm source tr = Inr (Event tr, body)" and
    run: "run_Event cb prog (Event tr) m =
            (case exec_stmts cb (Event tr) body m of
               (e, m') \<Rightarrow> (map_option CallbackError e, m'))"
    by blast
  from body c obtain inner where body_eq: "body = [IfCond (ifaceStr desc) (Condition tr) inner]"
    by (auto simp: gen_transition_def bindp_eq_Inr Let_def)
  have "exec_stmts cb (Event tr) body m = (err, m1)"
    using call no unfolding body_eq by (cases err) auto
  with run have "run_Event cb prog (Event tr) m = (map_option CallbackError err, m1)"
    by simp
  with call_condition_state [OF call] show ?thesis by simp
qed

text \<open>
  The example machine with \<open>ready\<close> returning false, and with \<open>ready\<close> returning an
  error.
\<close>

theorem Event_condition_false_or_error_witness:
  "run_Event (example_callbacks (False, None) None None) example_program ''start''
     (run_New example_desc 0) =
   (None, \<lparr>state = ''idle'', world = 1, calls = [(''ready'', ''start'', ''idle'')]\<rparr>) \<and>
   run_Event (example_callbacks (True, Some ''broken'') None None) example_program ''start''
     (run_New example_desc 0) =
   (Some (CallbackError ''broken''),
    \<lparr>state = ''idle'', world = 1, calls = [(''ready'', ''start'', ''idle'')]\<rparr>)"
proof -
  let ?cb1 = "example_callbacks (False, None) None None"
  let ?cb2 = "example_callbacks (True, Some ''broken'') None None"
  let ?m = "run_New example_desc (0::nat)"
  let ?m1 = "\<lparr>state = ''idle'', world = 1::nat, calls = [(''ready'', ''start'', ''idle'')]\<rparr>"
  have src: "example_idle \<in> set (States example_desc)" by code_simp
  have cur: "state ?m = Name example_idle" by code_simp
  have tr: "example_start \<in> set (Transitions example_idle)" by code_simp
  have c: "Condition example_start \<noteq> []" by code_simp
  have call1: "call_condition ?cb1 (Condition example_start) (Event example_start) ?m =
      ((False, None), ?m1)" by code_simp
  have call2: "call_condition ?cb2 (Condition example_start) (Event example_start) ?m =
      ((True, Some ''broken''), ?m1)" by code_simp
  have no1: "(None :: string option) \<noteq> None \<or> \<not> False" by simp
  have no2: "Some ''broken'' \<noteq> None \<or> \<not> True" by simp
  have ev: "Event example_start = ''start''" by code_simp
  from Event_condition_false_or_error
      [OF example_generate example_admissible src cur tr c call1 no1]
    Event_condition_false_or_error
      [OF example_generate example_admissible src cur tr c call2 no2]
  show ?thesis unfolding ev by simp
qed



text \<open>
  For a current state that is a state of the description, \<open>Event\<close> rejects an event
  that is not registered:
  when that state has no transition for the incoming event (no transitions at all, or
  none for this event), the \<open>default\<close> branch of its inner switch returns the "not valid"
  error, the same in both cases, and the machine is left as it was. For a current state
  that is not a state of the description the outer switch has no case, and \<open>Event\<close>
  returns \<open>nil\<close>.
\<close>

theorem Event_not_valid_for_declared_state:
  assumes gen: "generate desc ords = Inr prog" and adm: "admissible desc ords"
    and src: "source \<in> set (States desc)" and cur: "state m = Name source"
    and ev: "event \<notin> Event ` set (Transitions source)"
  shows "run_Event cb prog event m = (Some EventNotValid, m)"
proof -
  let ?sm = "map (\<lambda>s. (Name s, s)) (States desc)"
  from Event_cases_state [OF gen adm src] obtain ts where
    ts: "gen_transitions desc ?sm source (Transitions source) = Inr ts" and
    sw: "switch (Name source) (Event_cases prog) = Some ts" by blast
  from gen_transitions_Inr [OF ts] have "map fst ts = map Event (Transitions source)" by simp
  then have "fst ` set ts = Event ` set (Transitions source)" by (metis set_map)
  with ev have "switch event ts = None" by (simp add: switch_missing)
  with sw cur show ?thesis by (simp add: run_Event_def)
qed

theorem Event_not_valid_for_declared_state_witness:
  "run_Event (example_callbacks (True, None) None None) example_program ''start''
     \<lparr>state = ''running'', world = 0, calls = []\<rparr> =
   (Some EventNotValid, \<lparr>state = ''running'', world = 0, calls = []\<rparr>) \<and>
   run_Event (example_callbacks (True, None) None None) example_program ''stop''
     (run_New example_desc 0) =
   (Some EventNotValid, run_New example_desc 0)"
proof -
  let ?cb = "example_callbacks (True, None) None None"
  let ?m = "\<lparr>state = ''running'', world = 0::nat, calls = []\<rparr>"
  have src1: "example_running \<in> set (States example_desc)" by code_simp
  have cur1: "state ?m = Name example_running" by code_simp
  have ev1: "''start'' \<notin> Event ` set (Transitions example_running)" by code_simp
  have src2: "example_idle \<in> set (States example_desc)" by code_simp
  have cur2: "state (run_New example_desc (0::nat)) = Name example_idle" by code_simp
  have ev2: "''stop'' \<notin> Event ` set (Transitions example_idle)" by code_simp
  from Event_not_valid_for_declared_state
      [OF example_generate example_admissible src1 cur1 ev1, of ?cb]
    Event_not_valid_for_declared_state
      [OF example_generate example_admissible src2 cur2 ev2, of ?cb]
  show ?thesis by simp
qed

lemma run_Event_undeclared:
  assumes "generate desc ords = Inr prog" and "admissible desc ords"
    and "state m \<notin> Name ` set (States desc)"
  shows "run_Event cb prog event m = (None, m)"
  using Event_cases_undeclared [OF assms] by (simp add: run_Event_def)

text \<open>
  C4. \<open>Event\<close> is claimed to fail with the "not valid" error whenever no transition is
  registered for the current state and the incoming event. The example machine is put
  into the state \<open>paused\<close> by \<open>SetState\<close>; nothing is registered for \<open>paused\<close>, and
  \<open>start\<close> returns \<open>nil\<close> instead of the error, because the outer \<open>switch sm.state\<close> has
  no \<open>default\<close>. In the state \<open>running\<close>, which is declared and has no transitions
  either, the same call returns the error from the \<open>default\<close> of the inner switch.
\<close>

theorem Event_undeclared_state_returns_nil:
  "generate example_desc example_orders = Inr example_program \<and>
   admissible example_desc example_orders \<and>
   \<not> has_transition example_desc ''paused'' ''start'' \<and>
   \<not> has_transition example_desc ''running'' ''start'' \<and>
   run_SetState (example_callbacks (True, None) None None) example_program ''paused'' [] False
     (run_New example_desc 0) =
   (None, \<lparr>state = ''paused'', world = 0, calls = []\<rparr>) \<and>
   run_Event (example_callbacks (True, None) None None) example_program ''start''
     \<lparr>state = ''paused'', world = 0, calls = []\<rparr> =
   (None, \<lparr>state = ''paused'', world = 0, calls = []\<rparr>) \<and>
   run_Event (example_callbacks (True, None) None None) example_program ''start''
     \<lparr>state = ''running'', world = 0, calls = []\<rparr> =
   (Some EventNotValid, \<lparr>state = ''running'', world = 0, calls = []\<rparr>)"
proof -
  have "\<not> has_transition example_desc ''paused'' ''start'' \<and>
    \<not> has_transition example_desc ''running'' ''start''" by code_simp
  moreover have "run_SetState (example_callbacks (True, None) None None) example_program ''paused''
      [] False (run_New example_desc 0) =
    (None, \<lparr>state = ''paused'', world = 0::nat, calls = []\<rparr>)" by code_simp
  moreover have "run_Event (example_callbacks (True, None) None None) example_program ''start''
     \<lparr>state = ''paused'', world = 0::nat, calls = []\<rparr> =
    (None, \<lparr>state = ''paused'', world = 0, calls = []\<rparr>)" by code_simp
  moreover have "run_Event (example_callbacks (True, None) None None) example_program ''start''
     \<lparr>state = ''running'', world = 0::nat, calls = []\<rparr> =
    (Some EventNotValid, \<lparr>state = ''running'', world = 0, calls = []\<rparr>)" by code_simp
  ultimately show ?thesis using example_generate example_admissible by simp
qed

section \<open>The generated \<open>SetState\<close> routine\<close>



section \<open>Validation\<close>

text \<open>
  C5 as stated says that every error class present is reported. \<open>compile\<close> panics at the
  first error it meets: for a description with the state \<open>a\<close> twice and a missing
  initial state, the run ends with the duplicate-state panic and the missing initial
  state is not reported.
\<close>

theorem validation_first_error_only_counterexample:
  "has_duplicate_state twice_desc \<and> init_missing twice_desc \<and>
   admissible twice_desc no_orders \<and>
   compile Quote_ascii twice_desc ''main'' no_orders = Inl (DuplicateState ''a'') \<and>
   compile_ptr Quote_ascii (Some (ptrs twice_desc)) ''main'' no_orders =
     Inl (DuplicateState ''a'') \<and>
   compile_ptr Quote_ascii (Some (ptrs twice_desc)) ''main'' no_orders \<noteq>
     Inl (InitMissing ''nowhere'')"
  by code_simp

text \<open>
  C5 (amended). Validation stops at the first error it meets and reports only that
  one, by a panic, whatever else is wrong. A nil description panics at once. The
  indexing loop goes through the states in input order and stops at the first state
  that is nil (nil-pointer panic), or whose name is the name of an earlier state
  (duplicate state, with that name), or among whose transitions, in input order, the
  first offending one is nil (nil-pointer panic) or has the event of an earlier
  transition of that state (duplicate event, with that event); a description in which
  the loop finds something ends in one of these three panics. When the loop finds
  nothing: a missing initial state is reported; else an empty state or event name ends
  the run with the index panic of \<open>camel\<close>; else a transition with a non-empty target
  that is not a state is reported with the missing-target panic of its state, target
  and event (which such transition depends on the order of the map); else \<open>compile\<close>
  returns its text.
\<close>

theorem validation_stops_at_first_error:
  "compile_ptr q None pkg ords = Inl NilPointerDereference \<and>
   (compile_ptr q (Some d) pkg ords = Inl (DuplicateState n) \<longleftrightarrow>
      (\<exists>pre s rest. PStates d = pre @ Some s # rest \<and> clean_states pre \<and>
         PName s = n \<and> n \<in> PName ` set (present pre))) \<and>
   (compile_ptr q (Some d) pkg ords = Inl (DuplicateEvent ev) \<longleftrightarrow>
      (\<exists>pre s rest tpre t trest. PStates d = pre @ Some s # rest \<and> clean_states pre \<and>
         PName s \<notin> PName ` set (present pre) \<and>
         PTransitions s = tpre @ Some t # trest \<and> clean_transitions tpre \<and>
         Event t = ev \<and> ev \<in> Event ` set (present tpre))) \<and>
   (compile_ptr q (Some d) pkg ords = Inl NilPointerDereference \<longleftrightarrow>
      (\<exists>pre rest. PStates d = pre @ None # rest \<and> clean_states pre) \<or>
      (\<exists>pre s rest tpre trest. PStates d = pre @ Some s # rest \<and> clean_states pre \<and>
         PName s \<notin> PName ` set (present pre) \<and>
         PTransitions s = tpre @ None # trest \<and> clean_transitions tpre)) \<and>
   (\<not> clean_states (PStates d) \<longrightarrow>
      (\<exists>n. compile_ptr q (Some d) pkg ords = Inl (DuplicateState n)) \<or>
      (\<exists>ev. compile_ptr q (Some d) pkg ords = Inl (DuplicateEvent ev)) \<or>
      compile_ptr q (Some d) pkg ords = Inl NilPointerDereference) \<and>
   (clean_states (PStates d) \<and> init_missing (pointees d) \<longrightarrow>
      compile_ptr q (Some d) pkg ords = Inl (InitMissing (PInit d))) \<and>
   (clean_states (PStates d) \<and> \<not> init_missing (pointees d) \<and> admissible (pointees d) ords \<longrightarrow>
      (has_empty_name (pointees d) \<longrightarrow>
         compile_ptr q (Some d) pkg ords = Inl IndexOutOfRange) \<and>
      (\<not> has_empty_name (pointees d) \<and> target_missing (pointees d) \<longrightarrow>
         (\<exists>s\<in>set (States (pointees d)). \<exists>t\<in>set (Transitions s).
            To t \<noteq> [] \<and> To t \<notin> Name ` set (States (pointees d)) \<and>
            compile_ptr q (Some d) pkg ords = Inl (TargetMissing (Name s) (To t) (Event t)))) \<and>
      (\<not> has_empty_name (pointees d) \<and> \<not> target_missing (pointees d) \<longrightarrow>
         (\<exists>text. compile_ptr q (Some d) pkg ords = Inr text)))"
proof (intro conjI)
  show "compile_ptr q None pkg ords = Inl NilPointerDereference"
    by (simp add: compile_ptr_def)
  have iff: "compile_ptr q (Some d) pkg ords = Inl e \<longleftrightarrow>
      index_states_ptr (PStates d) [] [] = Inl e"
    if "(\<exists>n. e = DuplicateState n) \<or> (\<exists>ev. e = DuplicateEvent ev) \<or> e = NilPointerDereference"
    for e
    using compile_ptr_Inl_index [OF _ that] compile_ptr_index(1) by blast
  show "compile_ptr q (Some d) pkg ords = Inl (DuplicateState n) \<longleftrightarrow>
      (\<exists>pre s rest. PStates d = pre @ Some s # rest \<and> clean_states pre \<and>
         PName s = n \<and> n \<in> PName ` set (present pre))"
    unfolding index_states_first_error(1) [symmetric] by (rule iff) simp
  show "compile_ptr q (Some d) pkg ords = Inl (DuplicateEvent ev) \<longleftrightarrow>
      (\<exists>pre s rest tpre t trest. PStates d = pre @ Some s # rest \<and> clean_states pre \<and>
         PName s \<notin> PName ` set (present pre) \<and>
         PTransitions s = tpre @ Some t # trest \<and> clean_transitions tpre \<and>
         Event t = ev \<and> ev \<in> Event ` set (present tpre))"
    unfolding index_states_first_error(2) [symmetric] by (rule iff) simp
  show "compile_ptr q (Some d) pkg ords = Inl NilPointerDereference \<longleftrightarrow>
      (\<exists>pre rest. PStates d = pre @ None # rest \<and> clean_states pre) \<or>
      (\<exists>pre s rest tpre trest. PStates d = pre @ Some s # rest \<and> clean_states pre \<and>
         PName s \<notin> PName ` set (present pre) \<and>
         PTransitions s = tpre @ None # trest \<and> clean_transitions tpre)"
    unfolding index_states_first_error(3) [symmetric] by (rule iff) simp
  show "\<not> clean_states (PStates d) \<longrightarrow>
      (\<exists>n. compile_ptr q (Some d) pkg ords = Inl (DuplicateState n)) \<or>
      (\<exists>ev. compile_ptr q (Some d) pkg ords = Inl (DuplicateEvent ev)) \<or>
      compile_ptr q (Some d) pkg ords = Inl NilPointerDereference"
  proof
    assume "\<not> clean_states (PStates d)"
    then obtain e where e: "index_states_ptr (PStates d) [] [] = Inl e"
      unfolding clean_states_index by (cases "index_states_ptr (PStates d) [] []") auto
    from index_states_first_error(4) [OF e] compile_ptr_index(1) [OF e, of q pkg ords]
    show "(\<exists>n. compile_ptr q (Some d) pkg ords = Inl (DuplicateState n)) \<or>
      (\<exists>ev. compile_ptr q (Some d) pkg ords = Inl (DuplicateEvent ev)) \<or>
      compile_ptr q (Some d) pkg ords = Inl NilPointerDereference"
      by auto
  qed
  show "clean_states (PStates d) \<and> init_missing (pointees d) \<longrightarrow>
      compile_ptr q (Some d) pkg ords = Inl (InitMissing (PInit d))"
  proof
    assume a: "clean_states (PStates d) \<and> init_missing (pointees d)"
    then have c: "clean_states (PStates d)" and i: "init_missing (pointees d)" by simp_all
    from compile_after_index(1) [OF clean_states_pointees [OF c] i, of q pkg ords]
    show "compile_ptr q (Some d) pkg ords = Inl (InitMissing (PInit d))"
      by (simp add: compile_ptr_index(2) [OF c])
  qed
  show "clean_states (PStates d) \<and> \<not> init_missing (pointees d) \<and> admissible (pointees d) ords \<longrightarrow>
      (has_empty_name (pointees d) \<longrightarrow>
         compile_ptr q (Some d) pkg ords = Inl IndexOutOfRange) \<and>
      (\<not> has_empty_name (pointees d) \<and> target_missing (pointees d) \<longrightarrow>
         (\<exists>s\<in>set (States (pointees d)). \<exists>t\<in>set (Transitions s).
            To t \<noteq> [] \<and> To t \<notin> Name ` set (States (pointees d)) \<and>
            compile_ptr q (Some d) pkg ords = Inl (TargetMissing (Name s) (To t) (Event t)))) \<and>
      (\<not> has_empty_name (pointees d) \<and> \<not> target_missing (pointees d) \<longrightarrow>
         (\<exists>text. compile_ptr q (Some d) pkg ords = Inr text))"
  proof (intro impI conjI)
    assume a: "clean_states (PStates d) \<and> \<not> init_missing (pointees d) \<and>
      admissible (pointees d) ords"
    then have c: "clean_states (PStates d)" and i: "\<not> init_missing (pointees d)"
      and adm: "admissible (pointees d) ords" by simp_all
    note nd = clean_states_pointees [OF c]
    note eq = compile_ptr_index(2) [OF c, of q pkg ords]
    {
      assume "has_empty_name (pointees d)"
      from compile_after_index(2) [OF nd adm i this, of q pkg]
      show "compile_ptr q (Some d) pkg ords = Inl IndexOutOfRange" unfolding eq .
    }
    {
      assume "\<not> has_empty_name (pointees d) \<and> target_missing (pointees d)"
      then have e: "\<not> has_empty_name (pointees d)" and t: "target_missing (pointees d)"
        by simp_all
      from compile_after_index(3) [OF nd adm i e t, of q pkg]
      show "\<exists>s\<in>set (States (pointees d)). \<exists>t\<in>set (Transitions s).
            To t \<noteq> [] \<and> To t \<notin> Name ` set (States (pointees d)) \<and>
            compile_ptr q (Some d) pkg ords = Inl (TargetMissing (Name s) (To t) (Event t))"
        unfolding eq .
    }
    {
      assume "\<not> has_empty_name (pointees d) \<and> \<not> target_missing (pointees d)"
      then have e: "\<not> has_empty_name (pointees d)" and t: "\<not> target_missing (pointees d)"
        by simp_all
      from compile_after_index(4) [OF nd adm i e t, of q pkg]
      show "\<exists>text. compile_ptr q (Some d) pkg ords = Inr text" unfolding eq .
    }
  qed
qed

text \<open>
  One description for each case: a duplicate state with a missing initial state, a
  \<open>null\<close> state before a duplicate, a missing initial state, an empty name, a missing
  target, and the example description, which compiles.
\<close>

theorem validation_stops_at_first_error_witness:
  "compile_ptr Quote_ascii (Some (ptrs twice_desc)) ''main'' no_orders =
     Inl (DuplicateState ''a'') \<and>
   compile_ptr Quote_ascii (Some null_desc) ''main'' no_orders = Inl NilPointerDereference \<and>
   compile_ptr Quote_ascii (Some (ptrs (example_desc\<lparr>Init := ''nowhere''\<rparr>))) ''main''
     example_orders = Inl (InitMissing ''nowhere'') \<and>
   compile_ptr Quote_ascii (Some (ptrs unnamed_desc)) ''main'' unnamed_orders =
     Inl IndexOutOfRange \<and>
   (\<exists>s\<in>set (States dangling_desc). \<exists>t\<in>set (Transitions s).
      To t \<noteq> [] \<and> To t \<notin> Name ` set (States dangling_desc) \<and>
      compile_ptr Quote_ascii (Some (ptrs dangling_desc)) ''main'' dangling_orders =
        Inl (TargetMissing (Name s) (To t) (Event t))) \<and>
   (\<exists>text. compile_ptr Quote_ascii (Some (ptrs example_desc)) ''main'' example_orders =
      Inr text)"
proof -
  let ?a = "\<lparr>PName = ''a'', POn = [], PTransitions = []\<rparr>"
  note inst = validation_stops_at_first_error [where q = Quote_ascii and pkg = "''main''"]
  note dup = inst [THEN conjunct2, THEN conjunct1, THEN iffD2]
  note nil = inst [THEN conjunct2, THEN conjunct2, THEN conjunct2, THEN conjunct1, THEN iffD2]
  note init = inst [THEN conjunct2, THEN conjunct2, THEN conjunct2, THEN conjunct2,
    THEN conjunct2, THEN conjunct1, THEN mp]
  note later = inst [THEN conjunct2, THEN conjunct2, THEN conjunct2, THEN conjunct2,
    THEN conjunct2, THEN conjunct2, THEN mp]
  have "PStates (ptrs twice_desc) = [Some ?a] @ Some ?a # [] \<and> clean_states [Some ?a] \<and>
      PName ?a = ''a'' \<and> ''a'' \<in> PName ` set (present [Some ?a])"
    by code_simp
  then have "\<exists>pre s rest. PStates (ptrs twice_desc) = pre @ Some s # rest \<and> clean_states pre \<and>
      PName s = ''a'' \<and> ''a'' \<in> PName ` set (present pre)"
    by (intro exI)
  then have 1: "compile_ptr Quote_ascii (Some (ptrs twice_desc)) ''main'' no_orders =
     Inl (DuplicateState ''a'')" by (rule dup)
  have "PStates null_desc = [Some ?a] @ None # [Some ?a] \<and> clean_states [Some ?a]"
    by code_simp
  then have "\<exists>pre rest. PStates null_desc = pre @ None # rest \<and> clean_states pre"
    by (intro exI)
  then have 2: "compile_ptr Quote_ascii (Some null_desc) ''main'' no_orders =
     Inl NilPointerDereference" by (intro nil disjI1)
  have "clean_states (PStates (ptrs (example_desc\<lparr>Init := ''nowhere''\<rparr>))) \<and>
      init_missing (pointees (ptrs (example_desc\<lparr>Init := ''nowhere''\<rparr>)))"
    unfolding pointees_ptrs by code_simp
  then have "compile_ptr Quote_ascii (Some (ptrs (example_desc\<lparr>Init := ''nowhere''\<rparr>))) ''main''
     example_orders = Inl (InitMissing (PInit (ptrs (example_desc\<lparr>Init := ''nowhere''\<rparr>))))"
    by (rule init)
  then have 3: "compile_ptr Quote_ascii (Some (ptrs (example_desc\<lparr>Init := ''nowhere''\<rparr>)))
     ''main'' example_orders = Inl (InitMissing ''nowhere'')"
    by (simp add: ptrs_def)
  have "clean_states (PStates (ptrs unnamed_desc)) \<and>
      \<not> init_missing (pointees (ptrs unnamed_desc)) \<and>
      admissible (pointees (ptrs unnamed_desc)) unnamed_orders"
    and e4: "has_empty_name (pointees (ptrs unnamed_desc))"
    unfolding pointees_ptrs by code_simp+
  from later [OF this(1), THEN conjunct1, THEN mp, OF e4]
  have 4: "compile_ptr Quote_ascii (Some (ptrs unnamed_desc)) ''main'' unnamed_orders =
     Inl IndexOutOfRange" .
  have "clean_states (PStates (ptrs dangling_desc)) \<and>
      \<not> init_missing (pointees (ptrs dangling_desc)) \<and>
      admissible (pointees (ptrs dangling_desc)) dangling_orders"
    and e5: "\<not> has_empty_name (pointees (ptrs dangling_desc)) \<and>
      target_missing (pointees (ptrs dangling_desc))"
    unfolding pointees_ptrs by code_simp+
  from later [OF this(1), THEN conjunct2, THEN conjunct1, THEN mp, OF e5]
  have 5: "\<exists>s\<in>set (States dangling_desc). \<exists>t\<in>set (Transitions s).
      To t \<noteq> [] \<and> To t \<notin> Name ` set (States dangling_desc) \<and>
      compile_ptr Quote_ascii (Some (ptrs dangling_desc)) ''main'' dangling_orders =
        Inl (TargetMissing (Name s) (To t) (Event t))"
    unfolding pointees_ptrs .
  have "clean_states (PStates (ptrs example_desc)) \<and>
      \<not> init_missing (pointees (ptrs example_desc)) \<and>
      admissible (pointees (ptrs example_desc)) example_orders"
    and e6: "\<not> has_empty_name (pointees (ptrs example_desc)) \<and>
      \<not> target_missing (pointees (ptrs example_desc))"
    unfolding pointees_ptrs by code_simp+
  from later [OF this(1), THEN conjunct2, THEN conjunct2, THEN mp, OF e6]
  have 6: "\<exists>text. compile_ptr Quote_ascii (Some (ptrs example_desc)) ''main'' example_orders =
      Inr text" .
  show ?thesis by (intro conjI) (fact 1 2 3 4 5 6)+
qed

section \<open>Identifier derivation\<close>

text \<open>
  C6. Identifier derivation is claimed to be defined for every input, the empty string
  included. On the empty string the index expression \<open>str[0]\<close> is out of range and
  \<open>camel\<close> panics; \<open>compile\<close> reaches that call for a description that passes every
  check of validation and has a state with the empty name, and the run ends with the
  index panic.
\<close>

theorem camel_empty_panics:
  "camel [] = Inl IndexOutOfRange \<and>
   \<not> has_duplicate_state unnamed_desc \<and> \<not> has_duplicate_event unnamed_desc \<and>
   \<not> init_missing unnamed_desc \<and> \<not> target_missing unnamed_desc \<and>
   admissible unnamed_desc unnamed_orders \<and>
   compile Quote_ascii unnamed_desc ''main'' unnamed_orders = Inl IndexOutOfRange"
  by code_simp

text \<open>
  C7 as stated says that two distinct names with the same derived identifier make
  compilation fail. \<open>compile\<close> has no such check: the description with the states
  \<open>idle\<close> and \<open>Idle\<close> compiles, and both constants are named \<open>StateIdle\<close>.
\<close>

theorem colliding_identifiers_counterexample:
  "admissible case_desc case_orders \<and>
   generate case_desc case_orders = Inr case_program \<and>
   compile Quote_ascii case_desc ''main'' case_orders =
     Inr (render_program Quote_ascii case_desc ''main'' case_program) \<and>
   map fst (State_consts case_program) = [''Idle'', ''Idle''] \<and>
   map snd (State_consts case_program) = [''idle'', ''Idle''] \<and>
   ''idle'' \<noteq> ''Idle'' \<and>
   camel ''idle'' = Inr ''Idle'' \<and> camel ''Idle'' = Inr ''Idle''"
proof -
  have g: "generate case_desc case_orders = Inr case_program" by code_simp
  then have "compile Quote_ascii case_desc ''main'' case_orders =
     Inr (render_program Quote_ascii case_desc ''main'' case_program)"
    by (simp add: compile_generate)
  moreover have "admissible case_desc case_orders" by code_simp
  moreover have "map fst (State_consts case_program) = [''Idle'', ''Idle''] \<and>
    map snd (State_consts case_program) = [''idle'', ''Idle''] \<and>
   ''idle'' \<noteq> ''Idle'' \<and> camel ''idle'' = Inr ''Idle'' \<and> camel ''Idle'' = Inr ''Idle''"
    by code_simp
  ultimately show ?thesis using g by simp
qed

text \<open>
  C7 (amended). For every description that compiles, the state names are pairwise
  distinct, every state name and every event name gets exactly one constant, and the
  identifier of each constant is \<open>camel\<close> of its name. Identifiers are not checked for
  collisions: two state constants (or two event constants) have the same identifier
  exactly when their names agree after the first byte and their first bytes have the
  same upper-case form.
\<close>

theorem derived_identifiers_unchecked:
  assumes comp: "compile q desc pkg ords = Inr text" and adm: "admissible desc ords"
  shows "\<exists>prog. generate desc ords = Inr prog \<and> text = render_program q desc pkg prog \<and>
           distinct (map snd (State_consts prog)) \<and>
           set (map snd (State_consts prog)) = Name ` set (States desc) \<and>
           distinct (map snd (Event_consts prog)) \<and>
           set (map snd (Event_consts prog)) =
             (\<Union>s\<in>set (States desc). Event ` set (Transitions s)) \<and>
           (\<forall>c\<in>set (State_consts prog) \<union> set (Event_consts prog).
              camel (snd c) = Inr (fst c)) \<and>
           (\<forall>c\<in>set (State_consts prog). \<forall>c'\<in>set (State_consts prog).
              fst c = fst c' \<longleftrightarrow>
              ToUpper_byte (hd (snd c)) = ToUpper_byte (hd (snd c')) \<and>
              tl (snd c) = tl (snd c')) \<and>
           (\<forall>c\<in>set (Event_consts prog). \<forall>c'\<in>set (Event_consts prog).
              fst c = fst c' \<longleftrightarrow>
              ToUpper_byte (hd (snd c)) = ToUpper_byte (hd (snd c')) \<and>
              tl (snd c) = tl (snd c'))"
proof -
  from comp obtain prog where gen: "generate desc ords = Inr prog"
    and rendered: "text = render_program q desc pkg prog"
    by (auto simp: compile_generate bindp_eq_Inr)
  note g = generate_consts [OF gen adm]
  note s = consts_identifiers [OF g(1) g(7)]
  note e = consts_identifiers [OF g(2) g(8)]
  have snd_s: "map snd (State_consts prog) = ord_StateConsts ords"
    unfolding g(1) by (simp add: comp_def)
  have snd_e: "map snd (Event_consts prog) = ord_EventConsts ords"
    unfolding g(2) by (simp add: comp_def)
  have all: "\<forall>c\<in>set (State_consts prog) \<union> set (Event_consts prog). camel (snd c) = Inr (fst c)"
    using s(1) e(1) by blast
  have d1: "distinct (map snd (State_consts prog))"
    and d2: "set (map snd (State_consts prog)) = Name ` set (States desc)"
    using g(3,4) unfolding snd_s by simp_all
  have d3: "distinct (map snd (Event_consts prog))"
    and d4: "set (map snd (Event_consts prog)) =
      (\<Union>s\<in>set (States desc). Event ` set (Transitions s))"
    using g(5,6) unfolding snd_e by simp_all
  show ?thesis
    by (intro exI [of _ prog] conjI) (fact gen rendered d1 d2 d3 d4 all s(2) e(2))+
qed

text \<open>
The example description.
\<close>

theorem derived_identifiers_unchecked_witness:
  "\<exists>prog. generate example_desc example_orders = Inr prog \<and>
     render_program Quote_ascii example_desc ''main'' example_program =
       render_program Quote_ascii example_desc ''main'' prog \<and>
     distinct (map snd (State_consts prog)) \<and>
     (\<forall>c\<in>set (State_consts prog) \<union> set (Event_consts prog). camel (snd c) = Inr (fst c))"
proof -
  from example_generate have c: "compile Quote_ascii example_desc ''main'' example_orders =
     Inr (render_program Quote_ascii example_desc ''main'' example_program)"
    by (simp add: compile_generate)
  from derived_identifiers_unchecked [OF c example_admissible]
  show ?thesis by blast
qed

section \<open>Determinism\<close>

text \<open>
  C8 as stated says that two runs of \<open>compile\<close> on the same input write the same text.
  The text follows the order in which Go ranges over the maps: for the example
  description, visiting the state constants as \<open>idle, running\<close> or as \<open>running, idle\<close>
  gives two different texts.
\<close>

theorem compile_order_dependent_counterexample:
  "admissible example_desc example_orders \<and> admissible example_desc swapped_orders \<and>
   \<not> isl (compile Quote_ascii example_desc ''main'' example_orders) \<and>
   compile Quote_ascii example_desc ''main'' example_orders \<noteq>
   compile Quote_ascii example_desc ''main'' swapped_orders"
proof -
  have "generate example_desc swapped_orders = Inr swapped_program" by code_simp
  then have c2: "compile Quote_ascii example_desc ''main'' swapped_orders =
     Inr (render_program Quote_ascii example_desc ''main'' swapped_program)"
    by (simp add: compile_generate)
  from example_generate have c1: "compile Quote_ascii example_desc ''main'' example_orders =
     Inr (render_program Quote_ascii example_desc ''main'' example_program)"
    by (simp add: compile_generate)
  have adm2: "admissible example_desc swapped_orders" by code_simp
  have "concat (map (render_const Quote_ascii ''State'') (State_consts example_program)) \<noteq>
        concat (map (render_const Quote_ascii ''State'') (State_consts swapped_program))"
    by (simp add: example_program_def swapped_program_def render_const_def)
  moreover have "SetState_cases swapped_program = SetState_cases example_program"
    "Event_consts swapped_program = Event_consts example_program"
    "Event_cases swapped_program = Event_cases example_program"
    by (simp_all add: swapped_program_def)
  moreover have "length (concat (map (render_const Quote_ascii ''State'') (State_consts example_program)))
     = length (concat (map (render_const Quote_ascii ''State'') (State_consts swapped_program)))"
    by (simp add: example_program_def swapped_program_def render_const_def)
  ultimately have "render_program Quote_ascii example_desc ''main'' example_program \<noteq>
      render_program Quote_ascii example_desc ''main'' swapped_program"
    unfolding render_program_def by simp
  with c1 c2 example_admissible adm2 show ?thesis by simp
qed

text \<open>
  C8 (amended). Compilation is deterministic up to the order in which the maps are
  ranged over. Whether \<open>compile\<close> returns a text or panics does not depend on that
  order, and two runs that return a text write the same constants, the same cases of
  \<open>SetState\<close> and the same cases of \<open>Event\<close>, each group possibly in a different order.
\<close>

theorem compile_output_up_to_map_order:
  assumes adm1: "admissible desc ords1" and adm2: "admissible desc ords2"
  shows "(isl (compile q desc pkg ords1) \<longleftrightarrow> isl (compile q desc pkg ords2)) \<and>
         (\<forall>text1. compile q desc pkg ords1 = Inr text1 \<longrightarrow>
            (\<exists>prog1 prog2.
               generate desc ords1 = Inr prog1 \<and> generate desc ords2 = Inr prog2 \<and>
               text1 = render_program q desc pkg prog1 \<and>
               compile q desc pkg ords2 = Inr (render_program q desc pkg prog2) \<and>
               mset (SetState_cases prog1) = mset (SetState_cases prog2) \<and>
               mset (State_consts prog1) = mset (State_consts prog2) \<and>
               mset (Event_consts prog1) = mset (Event_consts prog2) \<and>
               mset (Event_cases prog1) = mset (Event_cases prog2)))"
proof
  have isl_gen: "isl (compile q desc pkg ords) \<longleftrightarrow> isl (generate desc ords)" for ords
    by (cases "generate desc ords") (simp_all add: compile_generate)
  have one: "\<not> isl (generate desc a) \<Longrightarrow> \<not> isl (generate desc b)"
    if "admissible desc a" "admissible desc b" for a b
  proof -
    assume "\<not> isl (generate desc a)"
    then obtain p where "generate desc a = Inr p" by (cases "generate desc a") simp_all
    from generate_permuted [OF that this] show "\<not> isl (generate desc b)" by auto
  qed
  from one [OF adm1 adm2] one [OF adm2 adm1]
  show "isl (compile q desc pkg ords1) \<longleftrightarrow> isl (compile q desc pkg ords2)"
    unfolding isl_gen by blast
  show "\<forall>text1. compile q desc pkg ords1 = Inr text1 \<longrightarrow>
            (\<exists>prog1 prog2.
               generate desc ords1 = Inr prog1 \<and> generate desc ords2 = Inr prog2 \<and>
               text1 = render_program q desc pkg prog1 \<and>
               compile q desc pkg ords2 = Inr (render_program q desc pkg prog2) \<and>
               mset (SetState_cases prog1) = mset (SetState_cases prog2) \<and>
               mset (State_consts prog1) = mset (State_consts prog2) \<and>
               mset (Event_consts prog1) = mset (Event_consts prog2) \<and>
               mset (Event_cases prog1) = mset (Event_cases prog2))"
  proof (intro allI impI)
    fix text1 assume "compile q desc pkg ords1 = Inr text1"
    then obtain prog1 where gen1: "generate desc ords1 = Inr prog1"
      and t1: "text1 = render_program q desc pkg prog1"
      by (auto simp: compile_generate bindp_eq_Inr)
    from generate_permuted [OF adm1 adm2 gen1] obtain prog2 where
      gen2: "generate desc ords2 = Inr prog2" and
      m: "mset (SetState_cases prog1) = mset (SetState_cases prog2)"
         "mset (State_consts prog1) = mset (State_consts prog2)"
         "mset (Event_consts prog1) = mset (Event_consts prog2)"
         "mset (Event_cases prog1) = mset (Event_cases prog2)"
      by blast
    from gen2 have c2: "compile q desc pkg ords2 = Inr (render_program q desc pkg prog2)"
      by (simp add: compile_generate)
    show "\<exists>prog1 prog2.
               generate desc ords1 = Inr prog1 \<and> generate desc ords2 = Inr prog2 \<and>
               text1 = render_program q desc pkg prog1 \<and>
               compile q desc pkg ords2 = Inr (render_program q desc pkg prog2) \<and>
               mset (SetState_cases prog1) = mset (SetState_cases prog2) \<and>
               mset (State_consts prog1) = mset (State_consts prog2) \<and>
               mset (Event_consts prog1) = mset (Event_consts prog2) \<and>
               mset (Event_cases prog1) = mset (Event_cases prog2)"
      by (intro exI [of _ prog1] exI [of _ prog2] conjI) (fact gen1 gen2 t1 c2 m)+
  qed
qed

text \<open>
The example description with the two orders of the state constants.
\<close>

theorem compile_output_up_to_map_order_witness:
  "(isl (compile Quote_ascii example_desc ''main'' example_orders) \<longleftrightarrow>
    isl (compile Quote_ascii example_desc ''main'' swapped_orders)) \<and>
   (\<exists>prog1 prog2.
      generate example_desc example_orders = Inr prog1 \<and>
      generate example_desc swapped_orders = Inr prog2 \<and>
      compile Quote_ascii example_desc ''main'' swapped_orders =
        Inr (render_program Quote_ascii example_desc ''main'' prog2) \<and>
      mset (State_consts prog1) = mset (State_consts prog2) \<and>
      mset (Event_cases prog1) = mset (Event_cases prog2))"
proof -
  have adm2: "admissible example_desc swapped_orders" by code_simp
  from example_generate have c: "compile Quote_ascii example_desc ''main'' example_orders =
     Inr (render_program Quote_ascii example_desc ''main'' example_program)"
    by (simp add: compile_generate)
  from compile_output_up_to_map_order
    [OF example_admissible adm2, of Quote_ascii "''main''"] c
  show ?thesis by blast
qed

text \<open>
  C10. The text \<open>compile\<close> writes does not depend on the field \<open>Package\<close> of the
  description: two descriptions that differ only in that field give the same result
  for the same \<open>pkg\<close> argument.
\<close>

theorem compile_ignores_Package:
  "compile q (desc\<lparr>Package := p\<rparr>) pkg ords = compile q desc pkg ords"
  by (simp add: compile_generate generate_Package render_program_Package)

text \<open>
The example description with another \<open>Package\<close>.
\<close>

theorem compile_ignores_Package_witness:
  "compile Quote_ascii (example_desc\<lparr>Package := ''other''\<rparr>) ''main'' example_orders =
   Inr (render_program Quote_ascii example_desc ''main'' example_program)"
proof -
  from example_generate have c: "compile Quote_ascii example_desc ''main'' example_orders =
     Inr (render_program Quote_ascii example_desc ''main'' example_program)"
    by (simp add: compile_generate)
  from compile_ignores_Package [where q = Quote_ascii and desc = example_desc and p = "''other''"
      and pkg = "''main''" and ords = example_orders] c
  show ?thesis by simp
qed

end
